theory Spec2Isabelle
  imports Main
begin

section \<open>Strings and JavaScript objects\<close>

text \<open>
  JavaScript strings are modelled as \<open>string\<close> (byte characters). The three string
  predicates used by the plugin are \<open>startsWith\<close>, \<open>endsWith\<close> and \<open>includes\<close> (here \<open>str_includes\<close>).
\<close>

definition startsWith :: "string \<Rightarrow> string \<Rightarrow> bool" where
  "startsWith s p = (take (length p) s = p)"

definition endsWith :: "string \<Rightarrow> string \<Rightarrow> bool" where
  "endsWith s p = (length p \<le> length s \<and> drop (length s - length p) s = p)"

fun str_includes :: "string \<Rightarrow> string \<Rightarrow> bool" where
  "str_includes [] p = (p = [])"
| "str_includes (c # cs) p = (startsWith (c # cs) p \<or> str_includes cs p)"

text \<open>\<open>Array.prototype.join\<close> and \<open>String.prototype.split\<close> on a one-character separator.\<close>

fun join :: "string \<Rightarrow> string list \<Rightarrow> string" where
  "join sep [] = []"
| "join sep [x] = x"
| "join sep (x # y # ys) = x @ sep @ join sep (y # ys)"

fun split_on :: "char \<Rightarrow> string \<Rightarrow> string list" where
  "split_on c [] = [[]]"
| "split_on c (x # xs) =
     (if x = c then [] # split_on c xs
      else (case split_on c xs of [] \<Rightarrow> [[x]] | s # ss \<Rightarrow> (x # s) # ss))"

text \<open>
  An optional string property is \<open>string option\<close>; JavaScript's truthiness test
  (\<open>page.entry && ...\<close>, \<open>page.filename || ...\<close>) holds for a set, non-empty string.
\<close>

definition truthy :: "string option \<Rightarrow> bool" where
  "truthy v = (case v of None \<Rightarrow> False | Some s \<Rightarrow> s \<noteq> [])"

text \<open>
  The plugin keeps its tables in plain objects created by \<open>{}\<close>. Reading \<open>obj[key]\<close>
  finds an own property or, failing that, a member inherited from \<open>Object.prototype\<close>
  (a function or object, hence truthy), or nothing.
\<close>

datatype 'a jsval = Own 'a | Inherited | Undefined

definition object_prototype_keys :: "string list" where
  "object_prototype_keys =
     [''constructor'', ''__defineGetter__'', ''__defineSetter__'', ''hasOwnProperty'',
      ''__lookupGetter__'', ''__lookupSetter__'', ''isPrototypeOf'',
      ''propertyIsEnumerable'', ''toString'', ''valueOf'', ''__proto__'',
      ''toLocaleString'']"

definition js_get :: "(string \<times> 'a) list \<Rightarrow> string \<Rightarrow> 'a jsval" where
  "js_get obj k =
     (case map_of obj k of
        Some v \<Rightarrow> Own v
      | None \<Rightarrow> if k \<in> set object_prototype_keys then Inherited else Undefined)"

text \<open>
  \<open>Object.keys\<close> lists the own keys: canonical array indices (\<open>0\<close> ... \<open>2^32 - 2\<close>)
  first, in ascending numeric order, then every other key in insertion order.
\<close>

definition digits :: string where
  "digits = ''0123456789''"

definition is_digit :: "char \<Rightarrow> bool" where
  "is_digit c = (c \<in> set digits)"

definition digit_val :: "char \<Rightarrow> nat" where
  "digit_val c = length (takeWhile (\<lambda>d. d \<noteq> c) digits)"

definition decimal_val :: "string \<Rightarrow> int" where
  "decimal_val s = foldl (\<lambda>n c. 10 * n + int (digit_val c)) 0 s"


definition is_array_index :: "string \<Rightarrow> bool" where
  "is_array_index s =
     (s \<noteq> [] \<and> list_all is_digit s \<and> (s = ''0'' \<or> hd s \<noteq> CHR ''0'')
      \<and> decimal_val s < 4294967295)"

definition object_keys :: "(string \<times> 'a) list \<Rightarrow> string list" where
  "object_keys obj =
     sort_key decimal_val (filter is_array_index (map fst obj))
     @ filter (\<lambda>k. \<not> is_array_index k) (map fst obj)"

section \<open>POSIX paths (Node's \<open>path\<close> module, Vite's \<open>normalizePath\<close>)\<close>

text \<open>
  The host is a POSIX system. \<open>path.posix.normalize\<close> drops empty and \<open>.\<close> segments
  and resolves \<open>..\<close> segments; above the start of a relative path \<open>..\<close> is kept,
  above the root of an absolute path it is dropped.
\<close>

definition normalize_step :: "bool \<Rightarrow> string list \<Rightarrow> string \<Rightarrow> string list" where
  "normalize_step allowAboveRoot res seg =
     (if seg = [] \<or> seg = ''.'' then res
      else if seg = ''..'' then
        (if res \<noteq> [] \<and> last res \<noteq> ''..'' then butlast res
         else if allowAboveRoot then res @ [''..''] else res)
      else res @ [seg])"

definition normalizeString :: "string \<Rightarrow> bool \<Rightarrow> string list" where
  "normalizeString p allowAboveRoot =
     foldl (normalize_step allowAboveRoot) [] (split_on CHR ''/'' p)"

definition posix_normalize :: "string \<Rightarrow> string" where
  "posix_normalize p =
     (if p = [] then ''.''
      else
        let isAbsolute = (hd p = CHR ''/'');
            trailingSeparator = (last p = CHR ''/'');
            r = join ''/'' (normalizeString p (\<not> isAbsolute))
        in if r = [] then (if isAbsolute then ''/'' else if trailingSeparator then ''./'' else ''.'')
           else (if isAbsolute then ''/'' else []) @ r @ (if trailingSeparator then ''/'' else []))"

definition normalizePath :: "string \<Rightarrow> string" where
  "normalizePath p = posix_normalize p"

definition path_join :: "string list \<Rightarrow> string" where
  "path_join args =
     (let joined = join ''/'' (filter (\<lambda>a. a \<noteq> []) args)
      in if joined = [] then ''.'' else posix_normalize joined)"

text \<open>
  \<open>path.relative from to\<close> resolves both paths against the working directory and
  walks from the first to the second over their longest common directory prefix.
\<close>

definition path_resolve :: "string \<Rightarrow> string \<Rightarrow> string list" where
  "path_resolve cwd p =
     normalizeString (if startsWith p ''/'' then p else cwd @ ''/'' @ p) False"

fun common_prefix_length :: "string list \<Rightarrow> string list \<Rightarrow> nat" where
  "common_prefix_length (x # xs) (y # ys) =
     (if x = y then Suc (common_prefix_length xs ys) else 0)"
| "common_prefix_length _ _ = 0"

definition path_relative :: "string \<Rightarrow> string \<Rightarrow> string \<Rightarrow> string" where
  "path_relative cwd from to =
     (let f = path_resolve cwd from; t = path_resolve cwd to;
          n = common_prefix_length f t
      in join ''/'' (replicate (length f - n) ''..'' @ drop n t))"

section \<open>Regular expressions\<close>

text \<open>
  The fragment of ECMAScript regular expressions (no flags) that the plugin's patterns
  are written in: literal characters, \<open>.\<close>, identity escapes, capturing and
  non-capturing groups, alternation, the assertions \<open>^\<close> and \<open>$\<close>, and the
  quantifiers \<open>*\<close>, \<open>+\<close>, \<open>?\<close> with their lazy forms. \<open>RegExp_new\<close> is the
  constructor: it fails with \<open>SyntaxError\<close> as the engine does, and with
  \<open>Unmodelled\<close> on syntax outside the fragment.
\<close>

datatype error =
    ConfigurationError string
  | FileSystemError string
  | SyntaxError string
  | RenderError string
  | Unmodelled string

text \<open>A function applied to the result of a computation that has not failed.\<close>

definition map_ok :: "('a \<Rightarrow> 'b) \<Rightarrow> error + 'a \<Rightarrow> error + 'b" where
  "map_ok f r = (case r of Inl e \<Rightarrow> Inl e | Inr x \<Rightarrow> Inr (f x))"

datatype quant = Star | Plus | Quest

datatype regex =
    Chr char | Dot | Bol | Eol | Eps
  | Seq regex regex | Alt regex regex
  | Grp nat regex
  | Rep quant bool regex

datatype token =
  TChar char | TDot | TBol | TEol | TOpen | TOpenNC | TClose | TBar | TQuant quant

definition bslash :: char where
  "bslash = CHR 0x5C"

definition syntax_chars :: "char list" where
  "syntax_chars = ''^$.*+?()[]{}|'' @ [bslash]"

function tokenize :: "string \<Rightarrow> error + token list" where
  "tokenize [] = Inr []"
| "tokenize (c # cs) =
     (if c = bslash then
        (if cs = [] then Inl (SyntaxError (bslash # '' at end of pattern''))
         else if hd cs \<in> set syntax_chars \<or> hd cs = CHR ''/'' then
           map_ok (Cons (TChar (hd cs))) (tokenize (tl cs))
         else Inl (Unmodelled ''regular expression escape''))
      else if c = CHR ''('' then
        (if startsWith cs ''?:'' then map_ok (Cons TOpenNC) (tokenize (drop 2 cs))
         else if startsWith cs ''?'' then Inl (Unmodelled ''regular expression group specifier'')
         else map_ok (Cons TOpen) (tokenize cs))
      else if c = CHR '')'' then map_ok (Cons TClose) (tokenize cs)
      else if c = CHR ''|'' then map_ok (Cons TBar) (tokenize cs)
      else if c = CHR ''.'' then map_ok (Cons TDot) (tokenize cs)
      else if c = CHR ''^'' then map_ok (Cons TBol) (tokenize cs)
      else if c = CHR ''$'' then map_ok (Cons TEol) (tokenize cs)
      else if c = CHR ''*'' then map_ok (Cons (TQuant Star)) (tokenize cs)
      else if c = CHR ''+'' then map_ok (Cons (TQuant Plus)) (tokenize cs)
      else if c = CHR ''?'' then map_ok (Cons (TQuant Quest)) (tokenize cs)
      else if c \<in> set ''[]{}'' then Inl (Unmodelled ''regular expression class or braces'')
      else map_ok (Cons (TChar c)) (tokenize cs))"
  by pat_completeness auto
termination
  by (relation "measure length") (auto simp: startsWith_def)

text \<open>
  The parser reads the tokens left to right over a stack of open groups. Each frame
  holds the finished alternatives and the terms of the current alternative, both
  newest first. The flag says whether a quantifier may follow.
\<close>

datatype qflag = NoAtom | Atom | Quantified

record frame =
  f_tag :: "nat option"
  f_alts :: "regex list"
  f_cur :: "regex list"

record pstate =
  ps_next :: nat
  ps_flag :: qflag
  ps_top :: frame
  ps_stack :: "frame list"

definition seq_of :: "regex list \<Rightarrow> regex" where
  "seq_of rs = foldr Seq rs Eps"

fun alt_of :: "regex list \<Rightarrow> regex" where
  "alt_of [] = Eps"
| "alt_of [r] = r"
| "alt_of (r # rs) = Alt r (alt_of rs)"

definition close_frame :: "frame \<Rightarrow> regex" where
  "close_frame f = alt_of (rev (seq_of (rev (f_cur f)) # f_alts f))"

definition push_term :: "regex \<Rightarrow> qflag \<Rightarrow> pstate \<Rightarrow> pstate" where
  "push_term r fl s = s\<lparr>ps_flag := fl, ps_top := (ps_top s)\<lparr>f_cur := r # f_cur (ps_top s)\<rparr>\<rparr>"

definition nothing_to_repeat :: error where
  "nothing_to_repeat = SyntaxError ''Nothing to repeat''"

fun parse_step :: "pstate \<Rightarrow> token \<Rightarrow> error + pstate" where
  "parse_step s (TChar c) = Inr (push_term (Chr c) Atom s)"
| "parse_step s TDot = Inr (push_term Dot Atom s)"
| "parse_step s TBol = Inr (push_term Bol NoAtom s)"
| "parse_step s TEol = Inr (push_term Eol NoAtom s)"
| "parse_step s TOpen =
     Inr \<lparr>ps_next = Suc (ps_next s), ps_flag = NoAtom,
          ps_top = \<lparr>f_tag = Some (ps_next s), f_alts = [], f_cur = []\<rparr>,
          ps_stack = ps_top s # ps_stack s\<rparr>"
| "parse_step s TOpenNC =
     Inr \<lparr>ps_next = ps_next s, ps_flag = NoAtom,
          ps_top = \<lparr>f_tag = None, f_alts = [], f_cur = []\<rparr>,
          ps_stack = ps_top s # ps_stack s\<rparr>"
| "parse_step s TBar =
     Inr (s\<lparr>ps_flag := NoAtom,
            ps_top := (ps_top s)\<lparr>f_alts := seq_of (rev (f_cur (ps_top s))) # f_alts (ps_top s),
                                 f_cur := []\<rparr>\<rparr>)"
| "parse_step s TClose =
     (case ps_stack s of
        [] \<Rightarrow> Inl (SyntaxError ''Unmatched )'')
      | f # fs \<Rightarrow>
          let body = close_frame (ps_top s);
              r = (case f_tag (ps_top s) of None \<Rightarrow> body | Some i \<Rightarrow> Grp i body)
          in Inr \<lparr>ps_next = ps_next s, ps_flag = Atom,
                  ps_top = f\<lparr>f_cur := r # f_cur f\<rparr>, ps_stack = fs\<rparr>)"
| "parse_step s (TQuant q) =
     (case f_cur (ps_top s) of
        [] \<Rightarrow> Inl nothing_to_repeat
      | r # rs \<Rightarrow>
          (case ps_flag s of
             NoAtom \<Rightarrow> Inl nothing_to_repeat
           | Atom \<Rightarrow>
               Inr (s\<lparr>ps_flag := Quantified,
                      ps_top := (ps_top s)\<lparr>f_cur := Rep q True r # rs\<rparr>\<rparr>)
           | Quantified \<Rightarrow>
               (case (q, r) of
                  (Quest, Rep q' g r') \<Rightarrow>
                    Inr (s\<lparr>ps_flag := NoAtom,
                           ps_top := (ps_top s)\<lparr>f_cur := Rep q' False r' # rs\<rparr>\<rparr>)
                | _ \<Rightarrow> Inl nothing_to_repeat)))"

fun parse_tokens :: "pstate \<Rightarrow> token list \<Rightarrow> error + regex" where
  "parse_tokens s [] =
     (if ps_stack s = [] then Inr (close_frame (ps_top s))
      else Inl (SyntaxError ''Unterminated group''))"
| "parse_tokens s (t # ts) =
     (case parse_step s t of Inl e \<Rightarrow> Inl e | Inr s' \<Rightarrow> parse_tokens s' ts)"

definition parse_init :: pstate where
  "parse_init = \<lparr>ps_next = 1, ps_flag = NoAtom,
                 ps_top = \<lparr>f_tag = None, f_alts = [], f_cur = []\<rparr>, ps_stack = []\<rparr>"

definition RegExp_new :: "string \<Rightarrow> error + regex" where
  "RegExp_new src =
     (case tokenize src of Inl e \<Rightarrow> Inl e | Inr ts \<Rightarrow> parse_tokens parse_init ts)"

text \<open>
  Matching follows the backtracking semantics of the language standard. \<open>M r x\<close>
  lists, in the order backtracking tries them, the states in which a match of \<open>r\<close>
  begun in state \<open>x\<close> can end; the engine takes the first state from which the rest
  of the pattern matches. A quantifier clears the captures of the groups in its body
  before each iteration, and an iteration of \<open>*\<close> or \<open>?\<close> that consumes nothing is
  rejected.
\<close>

record mstate =
  m_pos :: nat
  m_rest :: string
  m_caps :: "nat \<rightharpoonup> string"

fun groups_of :: "regex \<Rightarrow> nat list" where
  "groups_of (Seq a b) = groups_of a @ groups_of b"
| "groups_of (Alt a b) = groups_of a @ groups_of b"
| "groups_of (Grp n r) = n # groups_of r"
| "groups_of (Rep q g r) = groups_of r"
| "groups_of _ = []"

definition reset_caps :: "nat list \<Rightarrow> mstate \<Rightarrow> mstate" where
  "reset_caps gs x = x\<lparr>m_caps := (\<lambda>k. if k \<in> set gs then None else m_caps x k)\<rparr>"

definition line_terminator :: "char \<Rightarrow> bool" where
  "line_terminator c = (c = CHR 0x0A \<or> c = CHR 0x0D)"

function star :: "(mstate \<Rightarrow> mstate list) \<Rightarrow> nat list \<Rightarrow> bool \<Rightarrow> mstate \<Rightarrow> mstate list" where
  "star m gs greedy x =
     (let ys = filter (\<lambda>y. length (m_rest y) < length (m_rest x)) (m (reset_caps gs x));
          more = concat (map (star m gs greedy) ys)
      in if greedy then more @ [x] else x # more)"
  by pat_completeness auto
termination
  by (relation "measure (\<lambda>(m, gs, greedy, x). length (m_rest x))") auto

declare star.simps [simp del]

fun M :: "regex \<Rightarrow> mstate \<Rightarrow> mstate list" where
  "M (Chr c) x =
     (case m_rest x of [] \<Rightarrow> []
      | d # ds \<Rightarrow> if d = c then [x\<lparr>m_pos := Suc (m_pos x), m_rest := ds\<rparr>] else [])"
| "M Dot x =
     (case m_rest x of [] \<Rightarrow> []
      | d # ds \<Rightarrow>
          if line_terminator d then [] else [x\<lparr>m_pos := Suc (m_pos x), m_rest := ds\<rparr>])"
| "M Bol x = (if m_pos x = 0 then [x] else [])"
| "M Eol x = (if m_rest x = [] then [x] else [])"
| "M Eps x = [x]"
| "M (Seq a b) x = concat (map (M b) (M a x))"
| "M (Alt a b) x = M a x @ M b x"
| "M (Grp n r) x =
     map (\<lambda>y. y\<lparr>m_caps := (m_caps y)(n \<mapsto> take (m_pos y - m_pos x) (m_rest x))\<rparr>) (M r x)"
| "M (Rep Quest greedy r) x =
     (let once = filter (\<lambda>y. m_pos y \<noteq> m_pos x) (M r (reset_caps (groups_of r) x))
      in if greedy then once @ [x] else x # once)"
| "M (Rep Star greedy r) x = star (M r) (groups_of r) greedy x"
| "M (Rep Plus greedy r) x =
     concat (map (star (M r) (groups_of r) greedy) (M r (reset_caps (groups_of r) x)))"

text \<open>
  \<open>RegExp.prototype.exec\<close> for the program's own patterns, which have no flags: the
  leftmost start index at which the pattern matches, with the first match there. For
  such a pattern \<open>test\<close> and \<open>String.prototype.match\<close> are \<open>exec\<close>, and no call
  changes the object.
\<close>

record match =
  index :: nat
  matched :: string
  groups :: "nat \<rightharpoonup> string"

fun exec_from :: "regex \<Rightarrow> nat \<Rightarrow> string \<Rightarrow> match option" where
  "exec_from r i s =
     (case M r \<lparr>m_pos = i, m_rest = s, m_caps = Map.empty\<rparr> of
        y # _ \<Rightarrow> Some \<lparr>index = i, matched = take (m_pos y - i) s, groups = m_caps y\<rparr>
      | [] \<Rightarrow> (case s of [] \<Rightarrow> None | _ # s' \<Rightarrow> exec_from r (Suc i) s'))"

definition RegExp_exec :: "regex \<Rightarrow> string \<Rightarrow> match option" where
  "RegExp_exec r s = exec_from r 0 s"

definition RegExp_test :: "regex \<Rightarrow> string \<Rightarrow> bool" where
  "RegExp_test r s = (RegExp_exec r s \<noteq> None)"

definition String_match :: "string \<Rightarrow> regex \<Rightarrow> match option" where
  "String_match s r = RegExp_exec r s"

text \<open>
  A \<open>RegExp\<close> object that the program is handed, as a rewrite rule holds one. It has
  the matcher compiled from its source and the flags \<open>i\<close>, \<open>m\<close>, \<open>s\<close>, \<open>u\<close>, \<open>v\<close>
  (the internal slot \<open>[[RegExpMatcher]]\<close>: for a string and a start index, the number
  of characters matched from there and the captures, or failure), the flags \<open>g\<close> and
  \<open>y\<close>, and the property \<open>lastIndex\<close>. \<open>RegExpBuiltinExec\<close> is the operation of
  that name in the language standard: with \<open>g\<close> or \<open>y\<close> the search starts at
  \<open>lastIndex\<close>, with \<open>y\<close> it tries that index only, and it leaves \<open>lastIndex\<close> at
  the end of the match, or at 0 after a failure; without these flags it searches from
  index 0 and leaves the object as it is. \<open>test\<close> is \<open>exec\<close> with the result
  compared with \<open>null\<close>. \<open>String.prototype.match\<close> is \<open>exec\<close> for a pattern
  without \<open>g\<close>; with \<open>g\<close> it sets \<open>lastIndex\<close> to 0 and collects the texts of all
  successive matches, stepping over an empty match by one character.
\<close>

type_synonym matcher = "string \<Rightarrow> nat \<Rightarrow> (nat \<times> (nat \<rightharpoonup> string)) option"

record regexp =
  RegExpMatcher :: matcher
  global :: bool
  sticky :: bool
  lastIndex :: nat

definition match_at :: "matcher \<Rightarrow> string \<Rightarrow> nat \<Rightarrow> match option" where
  "match_at m s i =
     (case m s i of
        None \<Rightarrow> None
      | Some (n, caps) \<Rightarrow> Some \<lparr>index = i, matched = take n (drop i s), groups = caps\<rparr>)"

function scan :: "matcher \<Rightarrow> string \<Rightarrow> nat \<Rightarrow> match option" where
  "scan m s i =
     (if length s < i then None
      else (case match_at m s i of None \<Rightarrow> scan m s (Suc i) | Some mt \<Rightarrow> Some mt))"
  by pat_completeness auto
termination
  by (relation "measure (\<lambda>(m, s, i). Suc (length s) - i)") auto

declare scan.simps [simp del]

definition RegExpBuiltinExec :: "regexp \<Rightarrow> string \<Rightarrow> match option \<times> regexp" where
  "RegExpBuiltinExec R S =
     (let stateful = (global R \<or> sticky R);
          start = (if stateful then lastIndex R else 0);
          r = (if length S < start then None
               else if sticky R then match_at (RegExpMatcher R) S start
               else scan (RegExpMatcher R) S start)
      in case r of
           None \<Rightarrow> (None, if stateful then R\<lparr>lastIndex := 0\<rparr> else R)
         | Some mt \<Rightarrow>
             (Some mt,
              if stateful then R\<lparr>lastIndex := index mt + length (matched mt)\<rparr> else R))"

definition RegExp_prototype_test :: "regexp \<Rightarrow> string \<Rightarrow> bool \<times> regexp" where
  "RegExp_prototype_test R S = (case RegExpBuiltinExec R S of (r, R') \<Rightarrow> (r \<noteq> None, R'))"

text \<open>
  The value of \<open>String.prototype.match\<close>: the result of \<open>exec\<close>, or, for a pattern
  with the flag \<open>g\<close>, the array of the matched texts.
\<close>

datatype match_result = Exec match | Matches "string list"

definition next_index :: "match \<Rightarrow> nat" where
  "next_index mt =
     (if matched mt = [] then Suc (index mt) else index mt + length (matched mt))"

function match_all :: "matcher \<Rightarrow> bool \<Rightarrow> string \<Rightarrow> nat \<Rightarrow> string list" where
  "match_all m y s i =
     (if length s < i then []
      else (case match_at m s i of
              None \<Rightarrow> if y then [] else match_all m y s (Suc i)
            | Some mt \<Rightarrow> matched mt # match_all m y s (next_index mt)))"
  by pat_completeness auto
termination
  by (relation "measure (\<lambda>(m, y, s, i). Suc (length s) - i)")
    (auto simp: next_index_def match_at_def split: option.splits)

declare match_all.simps [simp del]

definition String_prototype_match :: "string \<Rightarrow> regexp \<Rightarrow> match_result option \<times> regexp" where
  "String_prototype_match S R =
     (if \<not> global R then
        (case RegExpBuiltinExec R S of (r, R') \<Rightarrow> (map_option Exec r, R'))
      else
        (case match_all (RegExpMatcher R) (sticky R) S 0 of
           [] \<Rightarrow> (None, R\<lparr>lastIndex := 0\<rparr>)
         | ms \<Rightarrow> (Some (Matches ms), R\<lparr>lastIndex := 0\<rparr>)))"

text \<open>
  The object that a regular expression literal or \<open>new RegExp\<close> creates from a
  pattern of the fragment above, with the flags \<open>g\<close> and \<open>y\<close> as given.
\<close>

definition matcher_of :: "regex \<Rightarrow> matcher" where
  "matcher_of r s i =
     (case M r \<lparr>m_pos = i, m_rest = drop i s, m_caps = Map.empty\<rparr> of
        [] \<Rightarrow> None
      | y # _ \<Rightarrow> Some (m_pos y - i, m_caps y))"

definition RegExp_object :: "regex \<Rightarrow> bool \<Rightarrow> bool \<Rightarrow> regexp" where
  "RegExp_object r g y =
     \<lparr>RegExpMatcher = matcher_of r, global = g, sticky = y, lastIndex = 0\<rparr>"

text \<open>
  \<open>String.prototype.replace\<close> with a pattern and a replacement string replaces the
  first match; in the replacement, \<open>$$\<close>, \<open>$&\<close>, \<open>$`\<close>, \<open>$'\<close> and \<open>$n\<close> stand for
  a dollar sign, the match, the text before it, the text after it and the \<open>n\<close>th
  capture (\<open>GetSubstitution\<close>; \<open>m\<close> is the number of groups of the pattern).
\<close>

definition capture_text :: "match \<Rightarrow> nat \<Rightarrow> string" where
  "capture_text mt k = (case groups mt k of None \<Rightarrow> [] | Some s \<Rightarrow> s)"

function GetSubstitution :: "match \<Rightarrow> string \<Rightarrow> nat \<Rightarrow> string \<Rightarrow> string" where
  "GetSubstitution mt str m [] = []"
| "GetSubstitution mt str m (c # cs) =
     (if c \<noteq> CHR ''$'' \<or> cs = [] then c # GetSubstitution mt str m cs
      else if hd cs = CHR ''$'' then CHR ''$'' # GetSubstitution mt str m (tl cs)
      else if hd cs = CHR ''&'' then matched mt @ GetSubstitution mt str m (tl cs)
      else if hd cs = CHR ''`'' then take (index mt) str @ GetSubstitution mt str m (tl cs)
      else if hd cs = CHR 0x27 then
        drop (index mt + length (matched mt)) str @ GetSubstitution mt str m (tl cs)
      else if is_digit (hd cs) then
        (let n1 = digit_val (hd cs);
             two = (tl cs \<noteq> [] \<and> is_digit (hd (tl cs)));
             nn = 10 * n1 + digit_val (hd (tl cs))
         in if two \<and> nn \<le> m then
              (if 1 \<le> nn then capture_text mt nn @ GetSubstitution mt str m (tl (tl cs))
               else c # hd cs # hd (tl cs) # GetSubstitution mt str m (tl (tl cs)))
            else if 1 \<le> n1 \<and> n1 \<le> m then capture_text mt n1 @ GetSubstitution mt str m (tl cs)
            else c # hd cs # GetSubstitution mt str m (tl cs))
      else c # GetSubstitution mt str m cs)"
  by pat_completeness auto
termination
  by (relation "measure (\<lambda>(mt, str, m, r). length r)") auto

definition String_replace :: "string \<Rightarrow> regex \<Rightarrow> string \<Rightarrow> string" where
  "String_replace s r replacement =
     (case RegExp_exec r s of
        None \<Rightarrow> s
      | Some mt \<Rightarrow>
          take (index mt) s
          @ GetSubstitution mt s (length (groups_of r)) replacement
          @ drop (index mt + length (matched mt)) s)"

section \<open>Pages and the route tables\<close>

record 'v page =
  name :: string
  filename :: "string option"
  entry :: "string option"
  template :: "string option"
  data :: "(string \<rightharpoonup> 'v) option"

text \<open>
  \<open>virtualPageMap\<close> is written with \<open>obj[entryPath] = page\<close>. For the key
  \<open>__proto__\<close> that assignment creates no own property: it makes the page the
  object's prototype, and a later read of a key that is no own property is answered
  by that page's own properties before \<open>Object.prototype\<close>. A read yields a page,
  some other truthy value without \<open>entry\<close>, \<open>data\<close> or \<open>template\<close> (\<open>Other\<close>),
  or nothing; \<open>Exotic\<close> is the one read the model does not follow: a page's \<open>data\<close>
  object that itself has an \<open>entry\<close> or \<open>data\<close> member.
\<close>

record 'v page_map =
  own :: "string \<rightharpoonup> 'v page"
  proto :: "'v page option"

datatype 'v page_lookup = Found "'v page" | Other | Exotic | Missing

definition page_map_empty :: "'v page_map" where
  "page_map_empty = \<lparr>own = Map.empty, proto = None\<rparr>"

definition page_map_set :: "'v page_map \<Rightarrow> string \<Rightarrow> 'v page \<Rightarrow> 'v page_map" where
  "page_map_set m k p =
     (if k = ''__proto__'' then m\<lparr>proto := Some p\<rparr> else m\<lparr>own := (own m)(k \<mapsto> p)\<rparr>)"

definition inherited_get :: "string \<Rightarrow> 'v page_lookup" where
  "inherited_get k = (if k \<in> set object_prototype_keys then Other else Missing)"

definition page_map_get :: "'v page_map \<Rightarrow> string \<Rightarrow> 'v page_lookup" where
  "page_map_get m k =
     (case own m k of
        Some p \<Rightarrow> Found p
      | None \<Rightarrow>
          (case proto m of
             None \<Rightarrow> inherited_get k
           | Some p \<Rightarrow>
               if k = ''__proto__'' then Found p
               else if k = ''name'' then (if name p \<noteq> [] then Other else Missing)
               else if k = ''filename'' then (if truthy (filename p) then Other else Missing)
               else if k = ''entry'' then (if truthy (entry p) then Other else Missing)
               else if k = ''template'' then (if truthy (template p) then Other else Missing)
               else if k = ''data'' then
                 (case data p of
                    None \<Rightarrow> Missing
                  | Some d \<Rightarrow> if d ''entry'' = None \<and> d ''data'' = None then Other else Exotic)
               else inherited_get k))"

definition js_truthy :: "string jsval \<Rightarrow> bool" where
  "js_truthy v = (case v of Own s \<Rightarrow> s \<noteq> [] | Inherited \<Rightarrow> True | Undefined \<Rightarrow> False)"

record 'v temp_tables =
  tempInputMap :: "(string \<times> string) list"
  tempVirtualPageMap :: "'v page_map"
  tempTplSet :: "string set"

record 'v plugin_state =
  inputMap :: "(string \<times> string) list"
  virtualPageMap :: "'v page_map"
  tplSet :: "string set"
  rewriteReg :: "regex option"

definition entryPath_of :: "'v page \<Rightarrow> string" where
  "entryPath_of p = (if truthy (filename p) then the (filename p) else name p @ ''.html'')"

definition quoted :: "string \<Rightarrow> string" where
  "quoted s = [CHR 0x27] @ s @ [CHR 0x27]"

definition throwError :: "string \<Rightarrow> error" where
  "throwError message = ConfigurationError message"

subsection \<open>Page discovery\<close>

text \<open>
  \<open>scanPages\<close> reads the file system through \<open>fs.readdirSync\<close> and
  \<open>fs.statSync(...).isDirectory()\<close>, which are parameters here; either may throw.
\<close>

record file_system =
  readdirSync :: "string \<Rightarrow> error + string list"
  isDirectory :: "string \<Rightarrow> error + bool"

record scan_options =
  filenameFn :: "(string \<Rightarrow> string option) option"
  entryFile :: "string option"
  scanDirs :: "string list"

definition scanned_page :: "scan_options \<Rightarrow> string \<Rightarrow> string \<Rightarrow> 'v page" where
  "scanned_page so dir nm =
     \<lparr>name = nm,
      filename = (case filenameFn so of None \<Rightarrow> None | Some f \<Rightarrow> f nm),
      entry = (if truthy (entryFile so) then Some (path_join [''/'', dir, the (entryFile so)])
               else None),
      template = None,
      data = None\<rparr>"

fun scan_entries :: "file_system \<Rightarrow> scan_options \<Rightarrow> string \<Rightarrow> string list \<Rightarrow> error + 'v page list" where
  "scan_entries fs so entryDir [] = Inr []"
| "scan_entries fs so entryDir (nm # rest) =
     (let dir = path_join [entryDir, nm] in
      case isDirectory fs dir of
        Inl e \<Rightarrow> Inl e
      | Inr isDir \<Rightarrow>
          (case scan_entries fs so entryDir rest of
             Inl e \<Rightarrow> Inl e
           | Inr ps \<Rightarrow> Inr (if isDir then scanned_page so dir nm # ps else ps)))"

fun scan_dirs :: "file_system \<Rightarrow> scan_options \<Rightarrow> string list \<Rightarrow> error + 'v page list" where
  "scan_dirs fs so [] = Inr []"
| "scan_dirs fs so (entryDir # dirs) =
     (case readdirSync fs entryDir of
        Inl e \<Rightarrow> Inl e
      | Inr names \<Rightarrow>
          (case scan_entries fs so entryDir names of
             Inl e \<Rightarrow> Inl e
           | Inr ps \<Rightarrow>
               (case scan_dirs fs so dirs of Inl e \<Rightarrow> Inl e | Inr qs \<Rightarrow> Inr (ps @ qs))))"

definition scanPages :: "file_system \<Rightarrow> scan_options option \<Rightarrow> error + 'v page list" where
  "scanPages fs scanOptions =
     (case scanOptions of
        None \<Rightarrow> Inr []
      | Some so \<Rightarrow> scan_dirs fs so (filter (\<lambda>d. d \<noteq> []) (scanDirs so)))"

subsection \<open>Table construction\<close>

text \<open>The \<open>for\<close> loop of \<open>configInit\<close>, over the temporary tables.\<close>

fun configInit_loop :: "'v temp_tables \<Rightarrow> 'v page list \<Rightarrow> error + 'v temp_tables" where
  "configInit_loop t [] = Inr t"
| "configInit_loop t (p # ps) =
     (let entryPath = entryPath_of p in
      if startsWith entryPath ''/'' then
        Inl (throwError (''Make sure the path relative, received '' @ quoted entryPath))
      else if str_includes (name p) ''/'' then
        Inl (throwError (''Page name shouldn't include '/', received '' @ quoted (name p)))
      else if truthy (entry p) \<and> \<not> startsWith (the (entry p)) ''/'' then
        Inl (throwError
          (''Entry must be an absolute path relative to the project root, received ''
           @ quoted (the (entry p))))
      else if js_truthy (js_get (tempInputMap t) (name p)) then configInit_loop t ps
      else
        configInit_loop
          \<lparr>tempInputMap = tempInputMap t @ [(name p, entryPath)],
           tempVirtualPageMap = page_map_set (tempVirtualPageMap t) entryPath p,
           tempTplSet = (if truthy (template p) then insert (the (template p)) (tempTplSet t)
                         else tempTplSet t)\<rparr>
          ps)"

text \<open>
  A plugin operation returns what it returns or throws, together with the closure
  state it leaves behind. \<open>configInit\<close> assigns the three tables only after the loop
  has ended without an error.
\<close>

definition configInit ::
  "file_system \<Rightarrow> string \<Rightarrow> scan_options option \<Rightarrow> 'v page list \<Rightarrow> 'v plugin_state
   \<Rightarrow> (error + unit) \<times> 'v plugin_state" where
  "configInit fs tmpl scanOptions pages st =
     (case scanPages fs scanOptions of
        Inl e \<Rightarrow> (Inl e, st)
      | Inr found \<Rightarrow>
          (case configInit_loop
                  \<lparr>tempInputMap = [], tempVirtualPageMap = page_map_empty, tempTplSet = {tmpl}\<rparr>
                  (pages @ found) of
             Inl e \<Rightarrow> (Inl e, st)
           | Inr t \<Rightarrow>
               (Inr (),
                st\<lparr>inputMap := tempInputMap t, virtualPageMap := tempVirtualPageMap t,
                   tplSet := tempTplSet t\<rparr>)))"

definition initial_state :: "'v plugin_state" where
  "initial_state =
     \<lparr>inputMap = [], virtualPageMap = page_map_empty, tplSet = {}, rewriteReg = None\<rparr>"

subsection \<open>The \<open>config\<close> hook and the composite pattern\<close>

definition template_string :: "string option \<Rightarrow> string" where
  "template_string v = (case v of None \<Rightarrow> ''undefined'' | Some s \<Rightarrow> s)"

definition rewriteReg_source :: "string option \<Rightarrow> string list \<Rightarrow> string" where
  "rewriteReg_source base keys =
     normalizePath (''/'' @ template_string base @ ''/'')
     @ ''('' @ join ''|'' keys @ '')(?:'' @ [bslash] @ ''.html?)?('' @ [bslash] @ ''?|#|$).*''"

definition config ::
  "file_system \<Rightarrow> string \<Rightarrow> scan_options option \<Rightarrow> 'v page list \<Rightarrow> string option
   \<Rightarrow> 'v plugin_state \<Rightarrow> (error + unit) \<times> 'v plugin_state" where
  "config fs tmpl scanOptions pages base st =
     (case configInit fs tmpl scanOptions pages st of
        (Inl e, st') \<Rightarrow> (Inl e, st')
      | (Inr u, st') \<Rightarrow>
          (case RegExp_new (rewriteReg_source base (object_keys (inputMap st'))) of
             Inl e \<Rightarrow> (Inl e, st')
           | Inr r \<Rightarrow> (Inr (), st'\<lparr>rewriteReg := Some r\<rparr>)))"

subsection \<open>Template rendering\<close>

record 'v resolved_config =
  root :: string
  env :: "string \<rightharpoonup> 'v"
  base :: string

text \<open>The pattern \<open>/<\/body>/\<close>.\<close>

definition bodyInject :: regex where
  "bodyInject = seq_of (map Chr ''</body>'')"

definition script_tag :: "string \<Rightarrow> string" where
  "script_tag src =
     ''<script type=\"module\" src=\"'' @ src @ ''\"></script>'' @ [CHR 0x0A] @ ''</body>''"

text \<open>
  \<open>ejs.render\<close> is a parameter: from the template text, the variables and the options
  (\<open>filename\<close>, \<open>root\<close>) it returns the rendered text or throws. \<open>transform\<close> returns
  \<open>null\<close> (\<open>None\<close>) or the rendered text.
\<close>

type_synonym 'v ejs = "string \<Rightarrow> (string \<rightharpoonup> 'v) \<Rightarrow> string \<times> string \<Rightarrow> error + string"

definition spread :: "(string \<rightharpoonup> 'v) option \<Rightarrow> (string \<rightharpoonup> 'v)" where
  "spread obj = (case obj of None \<Rightarrow> Map.empty | Some d \<Rightarrow> d)"

definition transform ::
  "'v ejs \<Rightarrow> 'v resolved_config \<Rightarrow> 'v plugin_state \<Rightarrow> string \<Rightarrow> string
   \<Rightarrow> error + string option" where
  "transform ejs_render resolvedConfig st fileContent id' =
     (case page_map_get (virtualPageMap st) id' of
        Missing \<Rightarrow> Inr None
      | Exotic \<Rightarrow> Inl (Unmodelled ''transform of an inherited data object'')
      | Other \<Rightarrow>
          map_ok Some
            (ejs_render fileContent (env resolvedConfig ++ spread None)
               (id', root resolvedConfig))
      | Found page \<Rightarrow>
          map_ok Some
            (ejs_render
               (if \<not> truthy (entry page) then fileContent
                else String_replace fileContent bodyInject
                       (script_tag (normalizePath (the (entry page)))))
               (env resolvedConfig ++ spread (data page))
               (id', root resolvedConfig)))"

subsection \<open>The development server: template changes and request routing\<close>

datatype ws_message = FullReload

definition on_change ::
  "string \<Rightarrow> 'v resolved_config \<Rightarrow> 'v plugin_state \<Rightarrow> string \<Rightarrow> ws_message list" where
  "on_change cwd resolvedConfig st file =
     (if endsWith file ''.html'' \<and> path_relative cwd (root resolvedConfig) file \<in> tplSet st
      then [FullReload] else [])"

text \<open>
  A rewrite rule has a pattern and a target. The pattern is a \<open>RegExp\<close> object of
  the caller's: the rule holds a reference to it, two rules may hold the same object,
  and \<open>test\<close> and \<open>match\<close> change its \<open>lastIndex\<close>; the objects are kept in a store.
  \<open>evaluateRewriteRule\<close>, \<open>url.parse\<close> and the parsed URL's \<open>pathname\<close> are
  parameters. The middleware either passes the request on unchanged, passes it on with
  a rewritten \<open>url\<close>, or serves a virtual page (loading and rendering it is the host's
  work from there).
\<close>

type_synonym regexp_store = "nat \<Rightarrow> regexp"

record 't rewrite =
  rw_from :: nat
  rw_to :: 't

record ('u, 't) url_api =
  url_parse :: "string \<Rightarrow> 'u"
  url_pathname :: "'u \<Rightarrow> string option"
  evaluateRewriteRule :: "'u \<Rightarrow> match_result \<Rightarrow> 't \<Rightarrow> string"

record request =
  req_method :: "string option"
  req_accept :: "string option"
  req_originalUrl :: "string option"
  req_url :: "string option"

datatype outcome = Next | NextWithUrl string | Serve string | ServeInherited

definition inputMapKey :: "'v plugin_state \<Rightarrow> string \<Rightarrow> string option" where
  "inputMapKey st pathname =
     (case rewriteReg st of
        None \<Rightarrow> None
      | Some r \<Rightarrow> (case String_match pathname r of None \<Rightarrow> None | Some mt \<Rightarrow> groups mt 1))"

definition fileName :: "'v plugin_state \<Rightarrow> string \<Rightarrow> string jsval" where
  "fileName st pathname =
     (let k = inputMapKey st pathname
      in if truthy k then js_get (inputMap st) (the k) else Undefined)"

definition resolve :: "'v plugin_state \<Rightarrow> string \<Rightarrow> outcome" where
  "resolve st pathname =
     (let f = fileName st pathname
      in if \<not> js_truthy f then Next
         else (case f of Own s \<Rightarrow> Serve s | _ \<Rightarrow> ServeInherited))"

text \<open>\<open>rewrites.find(item => item.from.test(pathname))\<close>, over the store.\<close>

fun find_rewrite ::
  "'t rewrite list \<Rightarrow> string \<Rightarrow> regexp_store \<Rightarrow> 't rewrite option \<times> regexp_store" where
  "find_rewrite [] pathname h = (None, h)"
| "find_rewrite (item # items) pathname h =
     (case RegExp_prototype_test (h (rw_from item)) pathname of
        (True, R) \<Rightarrow> (Some item, h(rw_from item := R))
      | (False, R) \<Rightarrow> find_rewrite items pathname (h(rw_from item := R)))"

text \<open>The pattern \<open>/.*(text\/html|application\/xhtml\+xml).*/\<close>.\<close>

definition htmlAccept :: regex where
  "htmlAccept =
     seq_of [Rep Star True Dot,
             Grp 1 (Alt (seq_of (map Chr ''text/html''))
                        (seq_of (map Chr ''application/xhtml+xml''))),
             Rep Star True Dot]"

definition middleware ::
  "('u, 't) url_api \<Rightarrow> 't rewrite list \<Rightarrow> 'v plugin_state \<Rightarrow> request \<Rightarrow> regexp_store
   \<Rightarrow> outcome \<times> regexp_store" where
  "middleware api rewrites st req h =
     (if \<not> truthy (req_method req) \<or> the (req_method req) \<notin> {''GET'', ''HEAD''}
         \<or> \<not> truthy (req_accept req) \<or> \<not> truthy (req_originalUrl req)
         \<or> \<not> truthy (req_url req) then (Next, h)
      else if \<not> RegExp_test htmlAccept (the (req_accept req)) then (Next, h)
      else
        let parsedUrl = url_parse api (the (req_originalUrl req))
        in if \<not> truthy (url_pathname api parsedUrl) then (Next, h)
           else
             let pathname = the (url_pathname api parsedUrl)
             in case (if rewrites \<noteq> [] then find_rewrite rewrites pathname h
                      else (None, h)) of
                  (None, h1) \<Rightarrow> (resolve st pathname, h1)
                | (Some rewrite, h1) \<Rightarrow>
                    (case String_prototype_match pathname (h1 (rw_from rewrite)) of
                       (None, R) \<Rightarrow> (resolve st pathname, h1(rw_from rewrite := R))
                     | (Some mr, R) \<Rightarrow>
                         (NextWithUrl (evaluateRewriteRule api parsedUrl mr (rw_to rewrite)),
                          h1(rw_from rewrite := R))))"

section \<open>The composite pattern as a regular expression\<close>

text \<open>
  The regular expression \<open>/prefix(k1|k2|...)(?:\.html?)?(\?|#|$).*/\<close> over literal
  strings \<open>prefix\<close> and \<open>k1, k2, ...\<close>, written out as a syntax tree; an empty list
  of names leaves the empty group \<open>()\<close>.
\<close>

definition html_suffix :: regex where
  "html_suffix = Rep Quest True (seq_of [Chr CHR ''.'', Chr CHR ''h'', Chr CHR ''t'', Chr CHR ''m'',
                                         Rep Quest True (Chr CHR ''l'')])"

definition terminator :: regex where
  "terminator = Grp 2 (alt_of [seq_of [Chr CHR ''?''], seq_of [Chr CHR ''#''], seq_of [Eol]])"

definition suffix_pattern :: "regex list" where
  "suffix_pattern = [html_suffix, terminator, Rep Star True Dot]"

definition composite_pattern :: "string \<Rightarrow> string list \<Rightarrow> regex" where
  "composite_pattern prefix keys =
     seq_of (map Chr prefix
             @ [Grp 1 (alt_of (map (\<lambda>k. seq_of (map Chr k)) (if keys = [] then [[]] else keys))),
                html_suffix, terminator, Rep Star True Dot])"

text \<open>
  A string is \<open>literal\<close> when none of its characters is a syntax character of regular
  expressions, and a \<open>plain_name\<close> when, moreover, it has no \<open>#\<close>. \<open>tail_ok\<close>
  describes what may follow a page name in a path that the pattern accepts: nothing, a
  query or a fragment, each possibly after \<open>.htm\<close> or \<open>.html\<close>.
\<close>

definition literal :: "string \<Rightarrow> bool" where
  "literal s = list_all (\<lambda>c. c \<notin> set syntax_chars) s"

definition plain_name :: "string \<Rightarrow> bool" where
  "plain_name s = list_all (\<lambda>c. c \<notin> set syntax_chars \<and> c \<noteq> CHR ''#'') s"

definition end_ok :: "string \<Rightarrow> bool" where
  "end_ok z = (z = [] \<or> hd z = CHR ''?'' \<or> hd z = CHR ''#'')"

definition tail_ok :: "string \<Rightarrow> bool" where
  "tail_ok z =
     (end_ok z \<or>
      (startsWith z ''.htm'' \<and>
       (end_ok (drop 4 z) \<or> (startsWith (drop 4 z) ''l'' \<and> end_ok (drop 5 z)))))"



section \<open>Example configurations\<close>

definition simple_page :: "string \<Rightarrow> string page" where
  "simple_page nm = \<lparr>name = nm, filename = None, entry = None, template = None, data = None\<rparr>"

definition about_pages :: "string page list" where
  "about_pages = [simple_page ''about'', simple_page ''404'']"

definition no_fs :: file_system where
  "no_fs = \<lparr>readdirSync = (\<lambda>d. Inr []), isDirectory = (\<lambda>d. Inr False)\<rparr>"

text \<open>A project whose directory \<open>src/pages\<close> holds the subdirectories \<open>constructor\<close> and \<open>about\<close>.\<close>

definition example_fs :: file_system where
  "example_fs =
     \<lparr>readdirSync = (\<lambda>d. if d = ''src/pages'' then Inr [''constructor'', ''about'']
                          else Inl (FileSystemError ''ENOENT'')),
      isDirectory = (\<lambda>d. Inr True)\<rparr>"

definition example_scan :: scan_options where
  "example_scan = \<lparr>filenameFn = None, entryFile = None, scanDirs = [''src/pages'']\<rparr>"

definition example_rc :: "string resolved_config" where
  "example_rc = \<lparr>root = ''/proj'', env = Map.empty, base = ''/''\<rparr>"

definition env_rc :: "string resolved_config" where
  "env_rc = \<lparr>root = ''/proj'', env = [''MODE'' \<mapsto> ''development'', ''title'' \<mapsto> ''from env''],
            base = ''/''\<rparr>"

text \<open>Two stand-ins for \<open>ejs.render\<close>: one returns the template text, one the variable \<open>title\<close>.\<close>

definition ejs_identity :: "string ejs" where
  "ejs_identity content scope opts = Inr content"

definition ejs_title :: "string ejs" where
  "ejs_title content scope opts = Inr (case scope ''title'' of None \<Rightarrow> [] | Some v \<Rightarrow> v)"

text \<open>The plugin state after the \<open>config\<close> hook, for explicit pages only and base \<open>/\<close>.\<close>

definition example_state :: "string page list \<Rightarrow> string plugin_state" where
  "example_state pages = snd (config no_fs ''index.html'' None pages (Some ''/'') initial_state)"

text \<open>
  The state after a later \<open>reloadPages([])\<close>: the tables are empty, the pattern is
  still the one built by \<open>config\<close>.
\<close>

definition stale_state :: "string plugin_state" where
  "stale_state = snd (configInit no_fs ''index.html'' None [] (example_state [simple_page ''about'']))"

text \<open>
  The state after the \<open>config\<close> hook when the configuration sets no base, and the
  state after \<open>config\<close> with the page \<open>about\<close> and a later
  \<open>reloadPages\<close> with the pages \<open>about\<close> and \<open>new\<close>.
\<close>

definition unset_base_state :: "string plugin_state" where
  "unset_base_state = snd (config no_fs ''index.html'' None about_pages None initial_state)"

definition reloaded_state :: "string plugin_state" where
  "reloaded_state =
     snd (configInit no_fs ''index.html'' None [simple_page ''about'', simple_page ''new'']
            (example_state [simple_page ''about'']))"

definition tpl_state :: "string plugin_state" where
  "tpl_state = snd (configInit no_fs ''index.html'' None
                 [(simple_page ''a'')\<lparr>template := Some ''page.ejs''\<rparr>] initial_state)"

text \<open>
  A stand-in for \<open>url.parse\<close> on URLs that are a path with an optional query or
  fragment, and rewrite rules with string targets; a string target is returned as it
  is. The rules are \<open>{from: /\/admin/, to: '/admin.html'}\<close>,
  \<open>{from: /\/about/, to: '/custom.html'}\<close> and \<open>{from: /\//, to: '/index.html'}\<close>.
\<close>

definition example_api :: "(string, string) url_api" where
  "example_api =
     \<lparr>url_parse = (\<lambda>u. u),
      url_pathname = (\<lambda>u. let p = takeWhile (\<lambda>c. c \<noteq> CHR ''?'' \<and> c \<noteq> CHR ''#'') u
                          in if p = [] then None else Some p),
      evaluateRewriteRule = (\<lambda>u mr target. target)\<rparr>"

definition example_rewrites :: "string rewrite list" where
  "example_rewrites =
     [\<lparr>rw_from = 0, rw_to = ''/admin.html''\<rparr>,
      \<lparr>rw_from = 1, rw_to = ''/custom.html''\<rparr>,
      \<lparr>rw_from = 2, rw_to = ''/index.html''\<rparr>]"

definition example_store :: regexp_store where
  "example_store a =
     (if a = 0 then RegExp_object (seq_of (map Chr ''/admin'')) False False
      else if a = 1 then RegExp_object (seq_of (map Chr ''/about'')) False False
      else RegExp_object (seq_of (map Chr ''/'')) False False)"

text \<open>The single rule \<open>{from: /\/about/y, to: '/custom.html'}\<close>, with the sticky flag.\<close>

definition sticky_rewrites :: "string rewrite list" where
  "sticky_rewrites = [\<lparr>rw_from = 0, rw_to = ''/custom.html''\<rparr>]"

definition sticky_store :: regexp_store where
  "sticky_store a = RegExp_object (seq_of (map Chr ''/about'')) False True"

text \<open>The request \<open>GET /about\<close> of a browser.\<close>

definition about_request :: request where
  "about_request =
     \<lparr>req_method = Some ''GET'', req_accept = Some ''text/html,application/xhtml+xml'',
      req_originalUrl = Some ''/about'', req_url = Some ''/about''\<rparr>"

section \<open>Auxiliary notions for the proofs\<close>

fun key_tokens :: "string list \<Rightarrow> token list" where
  "key_tokens [] = []"
| "key_tokens [k] = map TChar k"
| "key_tokens (k # k' # ks) = map TChar k @ TBar # key_tokens (k' # ks)"

definition suffix_source :: string where
  "suffix_source = '')(?:'' @ [bslash] @ ''.html?)?('' @ [bslash] @ ''?|#|$).*''"

definition suffix_tokens :: "token list" where
  "suffix_tokens =
     [TClose, TOpenNC, TChar CHR ''.'', TChar CHR ''h'', TChar CHR ''t'', TChar CHR ''m'',
      TChar CHR ''l'', TQuant Quest, TClose, TQuant Quest, TOpen, TChar CHR ''?'', TBar,
      TChar CHR ''#'', TBar, TEol, TClose, TDot, TQuant Star]"

definition wrap_group :: "nat option \<Rightarrow> regex \<Rightarrow> regex" where
  "wrap_group tg body = (case tg of None \<Rightarrow> body | Some i \<Rightarrow> Grp i body)"

definition adv :: "mstate \<Rightarrow> nat \<Rightarrow> mstate" where
  "adv x n = x\<lparr>m_pos := m_pos x + n, m_rest := drop n (m_rest x)\<rparr>"

definition named :: "nat \<Rightarrow> mstate \<Rightarrow> string \<Rightarrow> mstate" where
  "named n x k = (adv x (length k))\<lparr>m_caps := (m_caps x)(n \<mapsto> k)\<rparr>"

definition html_request :: "('u, 't) url_api \<Rightarrow> request \<Rightarrow> string \<Rightarrow> bool" where
  "html_request api req pathname \<longleftrightarrow>
     truthy (req_method req) \<and> the (req_method req) \<in> {''GET'', ''HEAD''}
     \<and> truthy (req_accept req) \<and> truthy (req_originalUrl req) \<and> truthy (req_url req)
     \<and> RegExp_test htmlAccept (the (req_accept req))
     \<and> url_pathname api (url_parse api (the (req_originalUrl req))) = Some pathname
     \<and> pathname \<noteq> []"

definition values_nonempty :: "(string \<times> string) list \<Rightarrow> bool" where
  "values_nonempty m = list_all (\<lambda>kv. snd kv \<noteq> []) m"

section \<open>Table construction: validation and first-wins registration\<close>

lemma startsWith_slash: "startsWith s ''/'' \<longleftrightarrow> (s \<noteq> [] \<and> hd s = CHR ''/'')"
  by (cases s) (auto simp: startsWith_def)

lemma str_includes_char: "str_includes s [c] \<longleftrightarrow> c \<in> set s"
  by (induction s) (auto simp: startsWith_def)

lemma configInit_loop_error:
  "configInit_loop t ps = Inl e \<Longrightarrow> \<exists>msg. e = ConfigurationError msg"
  by (induction ps arbitrary: t) (auto simp: Let_def throwError_def split: if_splits)

lemma configInit_loop_invalid:
  "p \<in> set ps \<Longrightarrow>
   startsWith (entryPath_of p) ''/'' \<or> str_includes (name p) ''/''
     \<or> (truthy (entry p) \<and> \<not> startsWith (the (entry p)) ''/'') \<Longrightarrow>
   \<exists>e. configInit_loop t ps = Inl e"
  by (induction ps arbitrary: t) (auto simp: Let_def)

text \<open>
  C7. A page whose served path (the explicit \<open>filename\<close>, or \<open>name.html\<close>) begins
  with \<open>/\<close>, whose name contains \<open>/\<close>, or whose entry is set and does not begin with
  \<open>/\<close>, makes table construction fail with a configuration error wherever the page
  stands among the explicit and the discovered pages; the plugin's tables are left as
  they were (no partly built table is published), both on a reload (\<open>configInit\<close>)
  and at start-up (\<open>config\<close>). An entry is set when it passes the code's own test
  \<open>page.entry && ...\<close>, which a missing or empty entry does not.
\<close>

theorem configInit_rejects_invalid_page:
  assumes "scanPages fs scanOptions = Inr found"
    and "p \<in> set (pages @ found)"
    and "startsWith (entryPath_of p) ''/'' \<or> CHR ''/'' \<in> set (name p)
         \<or> (truthy (entry p) \<and> \<not> startsWith (the (entry p)) ''/'')"
  shows "\<exists>msg. configInit fs tmpl scanOptions pages st = (Inl (ConfigurationError msg), st)
           \<and> config fs tmpl scanOptions pages base' st = (Inl (ConfigurationError msg), st)"
proof -
  from assms(2,3) obtain e where e: "configInit_loop
      \<lparr>tempInputMap = [], tempVirtualPageMap = page_map_empty, tempTplSet = {tmpl}\<rparr>
      (pages @ found) = Inl e"
    using configInit_loop_invalid [of p "pages @ found"] by (auto simp: str_includes_char)
  then obtain msg where "e = ConfigurationError msg"
    using configInit_loop_error by blast
  with e assms(1) show ?thesis
    by (auto simp: configInit_def config_def)
qed

theorem configInit_rejects_invalid_page_witness:
  "scanPages no_fs None = Inr ([] :: string page list)
   \<and> (simple_page ''x'')\<lparr>filename := Some ''/abs.html''\<rparr>
       \<in> set ([(simple_page ''x'')\<lparr>filename := Some ''/abs.html''\<rparr>] @ [])
   \<and> startsWith (entryPath_of ((simple_page ''x'')\<lparr>filename := Some ''/abs.html''\<rparr>)) ''/''
   \<and> (\<exists>msg. configInit no_fs ''index.html'' None
                [(simple_page ''x'')\<lparr>filename := Some ''/abs.html''\<rparr>] initial_state
              = (Inl (ConfigurationError msg), initial_state)
            \<and> config no_fs ''index.html'' None
                [(simple_page ''x'')\<lparr>filename := Some ''/abs.html''\<rparr>] (Some ''/'') initial_state
              = (Inl (ConfigurationError msg), initial_state))"
proof -
  have a: "scanPages no_fs None = Inr ([] :: string page list)"
    by (simp add: scanPages_def)
  have b: "startsWith (entryPath_of ((simple_page ''x'')\<lparr>filename := Some ''/abs.html''\<rparr>)) ''/''"
    by (simp add: entryPath_of_def truthy_def startsWith_def simple_page_def)
  show ?thesis
    using a b configInit_rejects_invalid_page [OF a, where
        p = "(simple_page ''x'')\<lparr>filename := Some ''/abs.html''\<rparr>"
        and pages = "[(simple_page ''x'')\<lparr>filename := Some ''/abs.html''\<rparr>]"
        and tmpl = "''index.html''" and st = initial_state and base' = "Some ''/''"]
    by auto
qed

lemma entryPath_of_nonempty: "entryPath_of p \<noteq> []"
  by (auto simp: entryPath_of_def truthy_def split: option.splits)

lemma js_truthy_js_get:
  "values_nonempty m \<Longrightarrow>
   js_truthy (js_get m k) \<longleftrightarrow> (map_of m k \<noteq> None \<or> k \<in> set object_prototype_keys)"
  by (auto simp: js_truthy_def js_get_def values_nonempty_def list_all_iff
           split: option.splits dest!: map_of_SomeD)

lemma values_nonempty_snoc:
  "values_nonempty m \<Longrightarrow> values_nonempty (m @ [(k, entryPath_of p)])"
  by (auto simp: values_nonempty_def entryPath_of_nonempty)

lemma map_of_snoc:
  "map_of (m @ [(k, v)]) n =
     (case map_of m n of Some w \<Rightarrow> Some w | None \<Rightarrow> if n = k then Some v else None)"
  by (induction m) auto

lemma configInit_loop_skip:
  "configInit_loop t (p # ps) = Inr t' \<Longrightarrow> js_truthy (js_get (tempInputMap t) (name p)) \<Longrightarrow>
   configInit_loop t ps = Inr t'"
  by (auto simp: Let_def split: if_splits)

lemma configInit_loop_register:
  "configInit_loop t (p # ps) = Inr t' \<Longrightarrow> \<not> js_truthy (js_get (tempInputMap t) (name p)) \<Longrightarrow>
   configInit_loop
     \<lparr>tempInputMap = tempInputMap t @ [(name p, entryPath_of p)],
      tempVirtualPageMap = page_map_set (tempVirtualPageMap t) (entryPath_of p) p,
      tempTplSet = (if truthy (template p) then insert (the (template p)) (tempTplSet t)
                    else tempTplSet t)\<rparr> ps = Inr t'"
  by (auto simp: Let_def split: if_splits)

lemma configInit_loop_inputMap:
  "configInit_loop t ps = Inr t' \<Longrightarrow> values_nonempty (tempInputMap t) \<Longrightarrow>
   map_of (tempInputMap t') n =
     (case map_of (tempInputMap t) n of
        Some v \<Rightarrow> Some v
      | None \<Rightarrow> if n \<in> set object_prototype_keys then None
                else map_option entryPath_of (find (\<lambda>p. name p = n) ps))"
proof (induction ps arbitrary: t)
  case Nil
  then show ?case by (auto split: option.splits)
next
  case (Cons p ps)
  show ?case
  proof (cases "js_truthy (js_get (tempInputMap t) (name p))")
    case True
    from Cons.IH [OF configInit_loop_skip [OF Cons.prems(1) True] Cons.prems(2)]
      True Cons.prems(2)
    show ?thesis
      by (auto simp: js_truthy_js_get split: option.splits)
  next
    case False
    from Cons.IH [OF configInit_loop_register [OF Cons.prems(1) False]] Cons.prems(2) False
    show ?thesis
      by (auto simp: js_truthy_js_get values_nonempty_snoc map_of_snoc split: option.splits)
  qed
qed

lemma configInit_loop_values_nonempty:
  "configInit_loop t ps = Inr t' \<Longrightarrow> values_nonempty (tempInputMap t) \<Longrightarrow>
   values_nonempty (tempInputMap t')"
proof (induction ps arbitrary: t)
  case Nil
  then show ?case by auto
next
  case (Cons p ps)
  show ?case
  proof (cases "js_truthy (js_get (tempInputMap t) (name p))")
    case True
    from Cons.IH [OF configInit_loop_skip [OF Cons.prems(1) True] Cons.prems(2)]
    show ?thesis .
  next
    case False
    from Cons.IH [OF configInit_loop_register [OF Cons.prems(1) False]] Cons.prems(2)
    show ?thesis
      by (auto simp: values_nonempty_snoc)
  qed
qed

lemma configInit_loop_tplSet:
  "configInit_loop t ps = Inr t' \<Longrightarrow> values_nonempty (tempInputMap t) \<Longrightarrow>
   x \<in> tempTplSet t' \<longleftrightarrow>
     x \<in> tempTplSet t \<or>
     (\<exists>q. find (\<lambda>q'. name q' = name q) ps = Some q
        \<and> map_of (tempInputMap t) (name q) = None
        \<and> name q \<notin> set object_prototype_keys \<and> template q = Some x \<and> x \<noteq> [])"
proof (induction ps arbitrary: t)
  case Nil
  then show ?case by auto
next
  case (Cons p ps)
  have f: "\<And>q. find (\<lambda>q'. name q' = name q) (p # ps) =
      (if name p = name q then Some p else find (\<lambda>q'. name q' = name q) ps)"
    by simp
  show ?case
  proof (cases "js_truthy (js_get (tempInputMap t) (name p))")
    case True
    from Cons.IH [OF configInit_loop_skip [OF Cons.prems(1) True] Cons.prems(2)] have ih:
      "x \<in> tempTplSet t' \<longleftrightarrow> x \<in> tempTplSet t \<or>
        (\<exists>q. find (\<lambda>q'. name q' = name q) ps = Some q
        \<and> map_of (tempInputMap t) (name q) = None
        \<and> name q \<notin> set object_prototype_keys \<and> template q = Some x \<and> x \<noteq> [])" .
    from True Cons.prems(2) have p:
      "map_of (tempInputMap t) (name p) \<noteq> None \<or> name p \<in> set object_prototype_keys"
      by (simp add: js_truthy_js_get)
    show ?thesis
      unfolding ih f using p by metis
  next
    case False
    let ?t2 = "\<lparr>tempInputMap = tempInputMap t @ [(name p, entryPath_of p)],
           tempVirtualPageMap = page_map_set (tempVirtualPageMap t) (entryPath_of p) p,
           tempTplSet = (if truthy (template p) then insert (the (template p)) (tempTplSet t)
                         else tempTplSet t)\<rparr>"
    from Cons.IH [OF configInit_loop_register [OF Cons.prems(1) False]] Cons.prems(2) have ih:
      "x \<in> tempTplSet t' \<longleftrightarrow> x \<in> tempTplSet ?t2 \<or>
        (\<exists>q. find (\<lambda>q'. name q' = name q) ps = Some q
        \<and> map_of (tempInputMap ?t2) (name q) = None
        \<and> name q \<notin> set object_prototype_keys \<and> template q = Some x \<and> x \<noteq> [])"
      by (simp add: values_nonempty_snoc)
    from False Cons.prems(2) have p: "map_of (tempInputMap t) (name p) = None"
      "name p \<notin> set object_prototype_keys"
      by (auto simp: js_truthy_js_get)
    have t2: "x \<in> tempTplSet ?t2 \<longleftrightarrow> x \<in> tempTplSet t \<or> (template p = Some x \<and> x \<noteq> [])"
      by (auto simp: truthy_def split: option.splits)
    have m: "\<And>q. map_of (tempInputMap ?t2) (name q) = None \<longleftrightarrow>
        map_of (tempInputMap t) (name q) = None \<and> name q \<noteq> name p"
      by (auto simp: map_of_snoc split: option.splits)
    show ?thesis
      unfolding ih t2 m f using p by (metis option.inject)
  qed
qed

lemma configInit_success:
  assumes "configInit fs tmpl scanOptions pages st = (Inr u, st')"
  obtains found t where "scanPages fs scanOptions = Inr found"
    and "configInit_loop
           \<lparr>tempInputMap = [], tempVirtualPageMap = page_map_empty, tempTplSet = {tmpl}\<rparr>
           (pages @ found) = Inr t"
    and "st' = st\<lparr>inputMap := tempInputMap t, virtualPageMap := tempVirtualPageMap t,
                   tplSet := tempTplSet t\<rparr>"
  using assms by (auto simp: configInit_def split: sum.splits)

text \<open>
  First wins: after a successful construction the name table maps a name to the served
  path of the first page of that name, explicit pages before discovered ones, unless
  the name is a member inherited from \<open>Object.prototype\<close>, which is never registered.
\<close>

lemma configInit_inputMap:
  assumes "configInit fs tmpl scanOptions pages st = (Inr u, st')"
    and "scanPages fs scanOptions = Inr found"
  shows "js_get (inputMap st') n =
     (if n \<in> set object_prototype_keys then Inherited
      else case find (\<lambda>p. name p = n) (pages @ found) of
             None \<Rightarrow> Undefined
           | Some p \<Rightarrow> Own (entryPath_of p))"
proof -
  from assms obtain t where t: "configInit_loop
           \<lparr>tempInputMap = [], tempVirtualPageMap = page_map_empty, tempTplSet = {tmpl}\<rparr>
           (pages @ found) = Inr t"
    and st': "st' = st\<lparr>inputMap := tempInputMap t, virtualPageMap := tempVirtualPageMap t,
                   tplSet := tempTplSet t\<rparr>"
    by (auto elim!: configInit_success)
  from configInit_loop_inputMap [OF t, of n] st' show ?thesis
    by (auto simp: js_get_def values_nonempty_def split: option.splits)
qed

lemma find_append_Some: "find P xs = Some x \<Longrightarrow> find P (xs @ ys) = Some x"
  by (induction xs) (auto split: if_splits)

lemma configInit_first_wins:
  assumes "configInit fs tmpl scanOptions (pages :: 'v page list) st = (Inr u, st')"
    and "scanPages fs scanOptions = Inr (found :: 'v page list)"
    and "find (\<lambda>p. name p = n) pages = Some p"
    and "n \<notin> set object_prototype_keys"
  shows "js_get (inputMap st') n = Own (entryPath_of p)"
proof -
  from assms(3) have "find (\<lambda>p. name p = n) (pages @ found) = Some p"
    by (rule find_append_Some)
  with configInit_inputMap [OF assms(1,2), of n] assms(4) show ?thesis
    by simp
qed

text \<open>
  C5. The claim: explicit pages come before discovered pages and a page whose name is
  already registered is skipped, so that the table's entry for a name shared by an
  explicit and a discovered page is the explicit page's. The code tests "already
  registered" with \<open>tempInputMap[page.name]\<close> on an object created by \<open>{}\<close>, and
  for the name \<open>constructor\<close> that read finds the inherited
  \<open>Object.prototype.constructor\<close>: with the explicit page
  \<open>{name: 'constructor', filename: 'ctor.html'}\<close> and the discovered directories
  \<open>constructor\<close> and \<open>about\<close>, construction succeeds, only \<open>about\<close> is registered and
  the table has no entry of its own for \<open>constructor\<close>. For every other name the
  explicit page wins (\<open>configInit_first_wins\<close>).
\<close>

theorem configInit_page_named_constructor:
  "fst (configInit example_fs ''index.html'' (Some example_scan)
          [(simple_page ''constructor'')\<lparr>filename := Some ''ctor.html''\<rparr>] initial_state) = Inr ()
   \<and> inputMap (snd (configInit example_fs ''index.html'' (Some example_scan)
          [(simple_page ''constructor'')\<lparr>filename := Some ''ctor.html''\<rparr>] initial_state))
       = [(''about'', ''about.html'')]
   \<and> js_get (inputMap (snd (configInit example_fs ''index.html'' (Some example_scan)
          [(simple_page ''constructor'')\<lparr>filename := Some ''ctor.html''\<rparr>] initial_state)))
        ''constructor'' = Inherited"
  by code_simp

theorem configInit_page_named_constructor_witness:
  "js_get (inputMap (snd (configInit example_fs ''index.html'' (Some example_scan)
          [(simple_page ''constructor'')\<lparr>filename := Some ''ctor.html''\<rparr>] initial_state)))
        ''constructor'' \<noteq> Own ''ctor.html''"
proof -
  from configInit_page_named_constructor
  have "js_get (inputMap (snd (configInit example_fs ''index.html'' (Some example_scan)
          [(simple_page ''constructor'')\<lparr>filename := Some ''ctor.html''\<rparr>] initial_state)))
        ''constructor'' = Inherited"
    by blast
  then show ?thesis by simp
qed

section \<open>Template changes\<close>

text \<open>
  C2, as the specification states it, fails: the page template \<open>page.ejs\<close> is in the
  template set, and a change of \<open>/proj/page.ejs\<close> broadcasts nothing, because the
  handler first asks for a file name ending in \<open>.html\<close>.
\<close>

theorem on_change_non_html_template_counterexample:
  "path_relative ''/'' (root example_rc) ''/proj/page.ejs'' \<in> tplSet tpl_state
   \<and> on_change ''/'' example_rc tpl_state ''/proj/page.ejs'' = []"
  by code_simp

text \<open>
  C2, amended. After a successful table construction, a change event broadcasts a full
  reload exactly when the changed file's name ends in \<open>.html\<close> and its path relative
  to the project root is in the template set, that is, it is the default template or
  the non-empty template of a registered page (the first page of its name, the name not
  being a member of \<open>Object.prototype\<close>); in every other case nothing is broadcast, in
  particular for every file outside the template set.
\<close>

theorem on_change_full_reload:
  assumes "configInit fs tmpl scanOptions (pages :: 'v page list) st = (Inr u, st')"
    and "scanPages fs scanOptions = Inr (found :: 'v page list)"
  shows "on_change cwd rc st' file =
           (if endsWith file ''.html''
               \<and> (path_relative cwd (root rc) file = tmpl
                  \<or> (\<exists>p. find (\<lambda>q. name q = name p) (pages @ found) = Some p
                        \<and> name p \<notin> set object_prototype_keys
                        \<and> template p = Some (path_relative cwd (root rc) file)
                        \<and> path_relative cwd (root rc) file \<noteq> []))
            then [FullReload] else [])
         \<and> (path_relative cwd (root rc) file \<notin> tplSet st' \<longrightarrow> on_change cwd rc st' file = [])"
proof -
  from assms obtain t where t: "configInit_loop
           \<lparr>tempInputMap = [], tempVirtualPageMap = page_map_empty, tempTplSet = {tmpl}\<rparr>
           (pages @ found) = Inr t"
    and st': "st' = st\<lparr>inputMap := tempInputMap t, virtualPageMap := tempVirtualPageMap t,
                   tplSet := tempTplSet t\<rparr>"
    by (auto elim!: configInit_success)
  have "path_relative cwd (root rc) file \<in> tplSet st' \<longleftrightarrow>
      path_relative cwd (root rc) file = tmpl
            \<or> (\<exists>p. find (\<lambda>q. name q = name p) (pages @ found) = Some p
                  \<and> name p \<notin> set object_prototype_keys
                  \<and> template p = Some (path_relative cwd (root rc) file)
                  \<and> path_relative cwd (root rc) file \<noteq> [])"
    using configInit_loop_tplSet [OF t, of "path_relative cwd (root rc) file"] st'
    by (simp add: values_nonempty_def)
  then show ?thesis
    by (auto simp: on_change_def)
qed

lemma pair_snd: "fst a = x \<Longrightarrow> a = (x, snd a)"
  by (cases a) simp

lemma tpl_state_built:
  "configInit no_fs ''index.html'' None [(simple_page ''a'')\<lparr>template := Some ''page.ejs''\<rparr>]
     initial_state = (Inr (), tpl_state)"
  unfolding tpl_state_def by (rule pair_snd) code_simp

lemma scan_none: "scanPages no_fs None = Inr ([] :: string page list)"
  by (simp add: scanPages_def)

theorem on_change_full_reload_witness:
  "configInit no_fs ''index.html'' None [(simple_page ''a'')\<lparr>template := Some ''page.ejs''\<rparr>]
     initial_state = (Inr (), tpl_state)
   \<and> scanPages no_fs None = Inr ([] :: string page list)
   \<and> on_change ''/'' example_rc tpl_state ''/proj/index.html'' = [FullReload]
   \<and> on_change ''/'' example_rc tpl_state ''/proj/other.html'' = []"
proof -
  have r1: "path_relative ''/'' (root example_rc) ''/proj/index.html'' = ''index.html''"
    by code_simp
  have e1: "endsWith ''/proj/index.html'' ''.html''"
    by code_simp
  have r2: "path_relative ''/'' (root example_rc) ''/proj/other.html'' \<notin> tplSet tpl_state"
    by code_simp
  from on_change_full_reload [OF tpl_state_built scan_none, of "''/''" example_rc "''/proj/index.html''"]
    r1 e1
  have "on_change ''/'' example_rc tpl_state ''/proj/index.html'' = [FullReload]"
    by simp
  moreover from on_change_full_reload [OF tpl_state_built scan_none, of "''/''" example_rc
      "''/proj/other.html''"] r2
  have "on_change ''/'' example_rc tpl_state ''/proj/other.html'' = []"
    by blast
  ultimately show ?thesis using tpl_state_built scan_none by blast
qed

section \<open>Literal patterns and replacement\<close>

lemma seq_of_Cons [simp]: "seq_of (r # rs) = Seq r (seq_of rs)" and seq_of_Nil [simp]: "seq_of [] = Eps"
  by (simp_all add: seq_of_def)

lemma startsWith_Nil [simp]: "startsWith s []"
  by (simp add: startsWith_def)

lemma startsWith_Cons_Cons [simp]: "startsWith (d # ds) (c # w) \<longleftrightarrow> d = c \<and> startsWith ds w"
  by (auto simp: startsWith_def)

lemma startsWith_Nil_Cons [simp]: "\<not> startsWith [] (c # w)"
  by (simp add: startsWith_def)

lemma startsWith_append: "startsWith s w \<longleftrightarrow> (\<exists>t. s = w @ t)"
  by (metis append_eq_conv_conj startsWith_def)

lemma M_literal:
  "M (seq_of (map Chr w)) x =
     (if startsWith (m_rest x) w
      then [x\<lparr>m_pos := m_pos x + length w, m_rest := drop (length w) (m_rest x)\<rparr>] else [])"
proof (induction w arbitrary: x)
  case Nil
  then show ?case by simp
next
  case (Cons c w)
  show ?case
  proof (cases "m_rest x")
    case Nil
    then show ?thesis by simp
  next
    case (Cons d ds)
    then show ?thesis
      using Cons.IH [of "x\<lparr>m_pos := Suc (m_pos x), m_rest := ds\<rparr>"] by simp
  qed
qed

lemma str_includes_iff: "str_includes s w \<longleftrightarrow> (\<exists>pre post. s = pre @ w @ post)"
proof (induction s)
  case Nil
  then show ?case by auto
next
  case (Cons c s)
  show ?case
  proof
    assume "str_includes (c # s) w"
    then consider "startsWith (c # s) w" | "str_includes s w" by auto
    then show "\<exists>pre post. c # s = pre @ w @ post"
    proof cases
      case 1
      then obtain t where "c # s = w @ t" by (auto simp: startsWith_append)
      then have "c # s = [] @ w @ t" by simp
      then show ?thesis by blast
    next
      case 2
      with Cons.IH obtain pre post where "s = pre @ w @ post" by blast
      then have "c # s = (c # pre) @ w @ post" by simp
      then show ?thesis by blast
    qed
  next
    assume "\<exists>pre post. c # s = pre @ w @ post"
    then obtain pre post where e: "c # s = pre @ w @ post" by blast
    show "str_includes (c # s) w"
    proof (cases pre)
      case Nil
      with e have "startsWith (c # s) w" by (auto simp: startsWith_append)
      then show ?thesis by simp
    next
      case (Cons a pre')
      with e have "s = pre' @ w @ post" by simp
      with Cons.IH show ?thesis by auto
    qed
  qed
qed

lemma exec_from_literal_none:
  "\<not> str_includes s w \<Longrightarrow> exec_from (seq_of (map Chr w)) i s = None"
proof (induction s arbitrary: i)
  case Nil
  then show ?case by (cases w) (simp_all add: M_literal)
next
  case (Cons c s)
  then show ?case by (simp add: M_literal)
qed

lemma exec_from_literal_first:
  "\<not> str_includes (pre @ butlast w) w \<Longrightarrow> w \<noteq> [] \<Longrightarrow>
   exec_from (seq_of (map Chr w)) i (pre @ w @ post)
     = Some \<lparr>index = i + length pre, matched = w, groups = Map.empty\<rparr>"
proof (induction pre arbitrary: i)
  case Nil
  then show ?case by (simp add: M_literal startsWith_append)
next
  case (Cons c pre)
  have "\<not> startsWith (c # pre @ w @ post) w"
  proof
    assume "startsWith (c # pre @ w @ post) w"
    then have "take (length w) (c # pre @ w @ post) = w" by (simp add: startsWith_def)
    moreover have "length w \<le> length (c # pre @ butlast w) " using Cons.prems(2) by simp
    ultimately have "take (length w) ((c # pre @ butlast w)) = w"
      by (metis Cons.prems(2) Cons_eq_appendI append.assoc append_butlast_last_id  append_eq_append_conv_if
          append_eq_conv_conj)
    then have "startsWith (c # pre @ butlast w) w" by (simp add: startsWith_def)
    with Cons.prems(1) show False by simp
  qed
  moreover from Cons.prems have "\<not> str_includes (pre @ butlast w) w" by simp
  ultimately show ?case using Cons.IH [of "Suc i"] Cons.prems(2)
    by (simp add: M_literal)
qed

lemma GetSubstitution_no_dollar:
  "CHR ''$'' \<notin> set r \<Longrightarrow> GetSubstitution mt str m r = r"
  by (induction r) auto

lemma map_ok_simps [simp]: "map_ok f (Inl e) = Inl e" "map_ok f (Inr x) = Inr (f x)"
  by (simp_all add: map_ok_def)

lemma map_ok_not_null: "map_ok Some x \<noteq> Inr None"
  by (cases x) auto

text \<open>The two pattern literals of the source parse to the syntax trees used above.\<close>

lemma bodyInject_literal: "RegExp_new (''<'' @ [bslash] @ ''/body>'') = Inr bodyInject"
  by code_simp

lemma htmlAccept_literal:
  "RegExp_new (''.*(text'' @ [bslash] @ ''/html|application'' @ [bslash] @ ''/xhtml'' @ [bslash] @ ''+xml).*'')
   = Inr htmlAccept"
  by code_simp

section \<open>Template rendering\<close>

lemma virtualPageMap_config:
  "virtualPageMap (snd (config fs tmpl so pages b st))
   = virtualPageMap (snd (configInit fs tmpl so pages st))"
  by (auto simp: config_def split: prod.splits sum.splits)



lemma example_state_get:
  assumes "name p \<notin> set object_prototype_keys" and "\<not> startsWith (entryPath_of p) ''/''"
    and "CHR ''/'' \<notin> set (name p)" and "truthy (entry p) \<longrightarrow> startsWith (the (entry p)) ''/''"
    and "entryPath_of p \<noteq> ''__proto__''"
  shows "page_map_get (virtualPageMap (example_state [p])) k
         = (if k = entryPath_of p then Found p else inherited_get k)"
  using assms
  by (auto simp: example_state_def virtualPageMap_config configInit_def scanPages_def
      str_includes_char js_get_def js_truthy_def page_map_set_def page_map_get_def
      page_map_empty_def Let_def)

text \<open>
  \<open>transform\<close> returns \<open>null\<close> exactly for an id under which the path table holds
  nothing (no page and no inherited member).
\<close>

lemma transform_null_iff:
  "transform ejs_render rc st fileContent id' = Inr None
   \<longleftrightarrow> page_map_get (virtualPageMap st) id' = Missing"
  by (auto simp: transform_def map_ok_not_null split: page_lookup.splits)

lemma transform_null_example:
  "page_map_get (virtualPageMap (example_state [simple_page ''a''])) ''other.html'' = Missing
   \<and> transform ejs_identity example_rc (example_state [simple_page ''a'']) ''<p>hi</p>''
        ''other.html'' = Inr None"
proof -
  have "page_map_get (virtualPageMap (example_state [simple_page ''a''])) ''other.html'' = Missing"
    using example_state_get [of "simple_page ''a''" "''other.html''"]
    by (simp add: simple_page_def entryPath_of_def truthy_def object_prototype_keys_def
        inherited_get_def)
  with transform_null_iff [of ejs_identity example_rc "example_state [simple_page ''a'']"
      "''<p>hi</p>''" "''other.html''"]
  show ?thesis by simp
qed



text \<open>
  C9. For a page found in the path table, the variables handed to the rendering pass
  are the union of the environment's variables and the page's data, and on a key of
  both the page's data decides.
\<close>

theorem transform_scope:
  assumes "page_map_get (virtualPageMap st) id' = Found page"
  shows "transform ejs_render rc st fileContent id' =
           map_ok Some
             (ejs_render
                (if \<not> truthy (entry page) then fileContent
                 else String_replace fileContent bodyInject
                        (script_tag (normalizePath (the (entry page)))))
                (env rc ++ spread (data page)) (id', root rc))
         \<and> dom (env rc ++ spread (data page)) = dom (env rc) \<union> dom (spread (data page))
         \<and> (\<forall>k \<in> dom (spread (data page)). (env rc ++ spread (data page)) k = spread (data page) k)
         \<and> (\<forall>k. k \<notin> dom (spread (data page)) \<longrightarrow> (env rc ++ spread (data page)) k = env rc k)"
  using assms by (auto simp: transform_def map_add_def split: option.splits)

lemma found_titled:
  "page_map_get (virtualPageMap
       (example_state [(simple_page ''a'')\<lparr>data := Some [''title'' \<mapsto> ''Page title'']\<rparr>])) ''a.html''
   = Found ((simple_page ''a'')\<lparr>data := Some [''title'' \<mapsto> ''Page title'']\<rparr>)"
  using example_state_get [of "(simple_page ''a'')\<lparr>data := Some [''title'' \<mapsto> ''Page title'']\<rparr>"
      "''a.html''"]
  by (simp add: simple_page_def entryPath_of_def truthy_def object_prototype_keys_def)

theorem transform_scope_witness:
  "page_map_get (virtualPageMap
       (example_state [(simple_page ''a'')\<lparr>data := Some [''title'' \<mapsto> ''Page title'']\<rparr>])) ''a.html''
     = Found ((simple_page ''a'')\<lparr>data := Some [''title'' \<mapsto> ''Page title'']\<rparr>)
   \<and> env env_rc ''title'' = Some ''from env''
   \<and> transform ejs_title env_rc
        (example_state [(simple_page ''a'')\<lparr>data := Some [''title'' \<mapsto> ''Page title'']\<rparr>])
        ''<h1><%= title %></h1>'' ''a.html'' = Inr (Some ''Page title'')"
proof -
  have d: "''title'' \<in> dom (spread (data
      ((simple_page ''a'')\<lparr>data := Some [''title'' \<mapsto> ''Page title'']\<rparr>)))"
    by (simp add: spread_def)
  from transform_scope [OF found_titled, of ejs_title env_rc "''<h1><%= title %></h1>''"] d
  have "transform ejs_title env_rc
        (example_state [(simple_page ''a'')\<lparr>data := Some [''title'' \<mapsto> ''Page title'']\<rparr>])
        ''<h1><%= title %></h1>'' ''a.html'' = Inr (Some ''Page title'')"
    by (simp add: ejs_title_def spread_def)
  with found_titled show ?thesis by (simp add: env_rc_def)
qed

text \<open>
  C10. For a page with a set entry whose template content has no closing body tag,
  nothing is injected: the result is the rendering pass applied to the raw content
  (its text or its error), and the injection step itself raises nothing.
\<close>

theorem transform_without_body_tag:
  assumes "page_map_get (virtualPageMap st) id' = Found page"
    and "truthy (entry page)"
    and "\<not> str_includes fileContent ''</body>''"
  shows "transform ejs_render rc st fileContent id' =
           map_ok Some (ejs_render fileContent (env rc ++ spread (data page)) (id', root rc))"
proof -
  from assms(3) have "RegExp_exec bodyInject fileContent = None"
    unfolding RegExp_exec_def bodyInject_def by (rule exec_from_literal_none)
  with assms(1,2) show ?thesis
    by (simp add: transform_def String_replace_def)
qed

lemma found_entry:
  "page_map_get (virtualPageMap
       (example_state [(simple_page ''a'')\<lparr>entry := Some ''/src/main.ts''\<rparr>])) ''a.html''
   = Found ((simple_page ''a'')\<lparr>entry := Some ''/src/main.ts''\<rparr>)"
  using example_state_get [of "(simple_page ''a'')\<lparr>entry := Some ''/src/main.ts''\<rparr>" "''a.html''"]
  by (simp add: simple_page_def entryPath_of_def truthy_def object_prototype_keys_def)

theorem transform_without_body_tag_witness:
  "page_map_get (virtualPageMap
       (example_state [(simple_page ''a'')\<lparr>entry := Some ''/src/main.ts''\<rparr>])) ''a.html''
     = Found ((simple_page ''a'')\<lparr>entry := Some ''/src/main.ts''\<rparr>)
   \<and> truthy (entry ((simple_page ''a'' :: string page)\<lparr>entry := Some ''/src/main.ts''\<rparr>))
   \<and> \<not> str_includes ''<p>no body tag</p>'' ''</body>''
   \<and> transform ejs_identity example_rc
        (example_state [(simple_page ''a'')\<lparr>entry := Some ''/src/main.ts''\<rparr>])
        ''<p>no body tag</p>'' ''a.html'' = Inr (Some ''<p>no body tag</p>'')"
proof -
  have t: "truthy (entry ((simple_page ''a'' :: string page)\<lparr>entry := Some ''/src/main.ts''\<rparr>))"
    by (simp add: truthy_def)
  have n: "\<not> str_includes ''<p>no body tag</p>'' ''</body>''"
    by code_simp
  from transform_without_body_tag [OF found_entry t n, of ejs_identity example_rc]
  have "transform ejs_identity example_rc
        (example_state [(simple_page ''a'')\<lparr>entry := Some ''/src/main.ts''\<rparr>])
        ''<p>no body tag</p>'' ''a.html'' = Inr (Some ''<p>no body tag</p>'')"
    by (simp add: ejs_identity_def)
  with found_entry t n show ?thesis by blast
qed

text \<open>
  Injection for an entry whose normalized path has no \<open>$\<close>: the script tag stands
  immediately before the first closing body tag, and the text before and after is
  unchanged.
\<close>

lemma transform_injects_entry:
  assumes "page_map_get (virtualPageMap st) id' = Found page"
    and "truthy (entry page)"
    and "CHR ''$'' \<notin> set (normalizePath (the (entry page)))"
    and "\<not> str_includes (pre @ ''</body'') ''</body>''"
  shows "transform ejs_render rc st (pre @ ''</body>'' @ post) id' =
           map_ok Some
             (ejs_render
                (pre @ ''<script type=\"module\" src=\"'' @ normalizePath (the (entry page))
                   @ ''\"></script>'' @ [CHR 0x0A] @ ''</body>'' @ post)
                (env rc ++ spread (data page)) (id', root rc))"
proof -
  have "RegExp_exec bodyInject (pre @ ''</body>'' @ post)
          = Some \<lparr>index = 0 + length pre, matched = ''</body>'', groups = Map.empty\<rparr>"
    unfolding RegExp_exec_def bodyInject_def
    by (rule exec_from_literal_first) (use assms(4) in simp_all)
  moreover have "CHR ''$'' \<notin> set (script_tag (normalizePath (the (entry page))))"
    using assms(3) by (simp add: script_tag_def)
  ultimately show ?thesis using assms(1,2)
    by (simp add: transform_def String_replace_def GetSubstitution_no_dollar script_tag_def)
qed

text \<open>
  C8. The claim: for every page with a set entry and a template with a closing body
  tag, a module script tag referencing the normalized entry path is inserted before the
  first closing body tag. The code inserts the tag with \<open>String.prototype.replace\<close>,
  whose replacement text gives \<open>$$\<close>, \<open>$&\<close>, \<open>$`\<close> and \<open>$'\<close> a meaning: for the
  entry \<open>/src/$$app.ts\<close>, whose normalized path is itself, the inserted tag refers
  to \<open>/src/$app.ts\<close>.
\<close>

theorem transform_entry_with_dollar:
  "normalizePath ''/src/$$app.ts'' = ''/src/$$app.ts''
   \<and> transform ejs_identity example_rc
        (example_state [(simple_page ''a'')\<lparr>entry := Some ''/src/$$app.ts''\<rparr>])
        ''<body></body>'' ''a.html''
      = Inr (Some (''<body><script type=\"module\" src=\"/src/$app.ts\"></script>''
                   @ [CHR 0x0A] @ ''</body>''))"
  by code_simp

theorem transform_entry_with_dollar_witness:
  "transform ejs_identity example_rc
        (example_state [(simple_page ''a'')\<lparr>entry := Some ''/src/$$app.ts''\<rparr>])
        ''<body></body>'' ''a.html''
   \<noteq> Inr (Some (''<body><script type=\"module\" src=\"''
                 @ normalizePath ''/src/$$app.ts'' @ ''\"></script>'' @ [CHR 0x0A] @ ''</body>''))"
  using transform_entry_with_dollar by simp

section \<open>The composite pattern\<close>

subsection \<open>Reading the pattern source\<close>

lemma tokenize_suffix: "tokenize suffix_source = Inr suffix_tokens"
  by code_simp

lemma tokenize_literal_char:
  "c \<notin> set syntax_chars \<Longrightarrow> tokenize (c # cs) = map_ok (Cons (TChar c)) (tokenize cs)"
  by (auto simp: syntax_chars_def)

lemma tokenize_literal:
  "literal xs \<Longrightarrow> tokenize (xs @ ys) = map_ok ((@) (map TChar xs)) (tokenize ys)"
proof (induction xs)
  case Nil
  show ?case by (cases "tokenize ys") auto
next
  case (Cons c xs)
  then have "c \<notin> set syntax_chars" and "literal xs" by (auto simp: literal_def)
  with Cons.IH show ?case
    by (cases "tokenize ys") (auto simp: tokenize_literal_char simp del: tokenize.simps)
qed

lemma tokenize_bar: "tokenize (CHR ''|'' # cs) = map_ok (Cons TBar) (tokenize cs)"
  by (simp add: bslash_def)

lemma tokenize_keys:
  "list_all literal keys \<Longrightarrow>
   tokenize (join ''|'' keys @ ys) = map_ok ((@) (key_tokens keys)) (tokenize ys)"
proof (induction keys rule: key_tokens.induct)
  case 1
  show ?case by (cases "tokenize ys") auto
next
  case (2 k)
  then show ?case by (simp add: tokenize_literal)
next
  case (3 k k' ks)
  then have "literal k" and ih: "tokenize (join ''|'' (k' # ks) @ ys)
      = map_ok ((@) (key_tokens (k' # ks))) (tokenize ys)"
    by auto
  have "tokenize (join ''|'' (k # k' # ks) @ ys)
      = map_ok ((@) (map TChar k)) (tokenize (CHR ''|'' # join ''|'' (k' # ks) @ ys))"
    using tokenize_literal [OF \<open>literal k\<close>, of "CHR ''|'' # join ''|'' (k' # ks) @ ys"] by simp
  also have "\<dots> = map_ok ((@) (key_tokens (k # k' # ks))) (tokenize ys)"
    unfolding tokenize_bar ih by (cases "tokenize ys") auto
  finally show ?case .
qed

lemma join_keys_not_quest:
  "list_all literal keys \<Longrightarrow> \<not> startsWith (join ''|'' keys @ CHR '')'' # ys) ''?''"
proof (induction keys rule: key_tokens.induct)
  case 1
  show ?case by simp
next
  case (2 k)
  then show ?case by (cases k) (auto simp: literal_def syntax_chars_def)
next
  case (3 k k' ks)
  then show ?case by (cases k) (auto simp: literal_def syntax_chars_def)
qed

lemma startsWith_quest_colon: "startsWith s ''?:'' \<Longrightarrow> startsWith s ''?''"
  by (cases s) auto

lemma tokenize_open_keys:
  assumes "list_all literal keys"
  shows "tokenize (CHR ''('' # join ''|'' keys @ suffix_source)
         = Inr (TOpen # key_tokens keys @ suffix_tokens)"
proof -
  have s: "suffix_source = CHR '')'' # tl suffix_source"
    by (simp add: suffix_source_def)
  have nq: "\<not> startsWith (join ''|'' keys @ suffix_source) ''?''"
    using join_keys_not_quest [OF assms, of "tl suffix_source"] s by simp
  then have nqc: "\<not> startsWith (join ''|'' keys @ suffix_source) ''?:''"
    using startsWith_quest_colon by blast
  have "tokenize (CHR ''('' # join ''|'' keys @ suffix_source)
        = map_ok (Cons TOpen) (tokenize (join ''|'' keys @ suffix_source))"
    using nq nqc by (simp add: bslash_def)
  then show ?thesis
    by (simp add: tokenize_keys [OF assms] tokenize_suffix)
qed

lemma tokenize_rewriteReg_source:
  assumes "literal prefix" and "list_all literal keys"
  shows "tokenize (prefix @ ''('' @ join ''|'' keys @ suffix_source)
         = Inr (map TChar prefix @ TOpen # key_tokens keys @ suffix_tokens)"
  using tokenize_literal [OF assms(1), of "''('' @ join ''|'' keys @ suffix_source"]
    tokenize_open_keys [OF assms(2)]
  by simp

lemma parse_tokens_chars:
  "parse_tokens \<lparr>ps_next = n, ps_flag = fl, ps_top = \<lparr>f_tag = tg, f_alts = as, f_cur = cur\<rparr>,
                 ps_stack = stk\<rparr> (map TChar xs @ ts)
   = parse_tokens \<lparr>ps_next = n, ps_flag = (if xs = [] then fl else Atom),
                   ps_top = \<lparr>f_tag = tg, f_alts = as, f_cur = rev (map Chr xs) @ cur\<rparr>,
                   ps_stack = stk\<rparr> ts"
  by (induction xs arbitrary: fl cur) (simp_all add: push_term_def)

lemma alt_of_snoc_step: "alt_of (rev as @ r # rs) = alt_of (rev (r # as) @ rs)"
  by simp

lemma parse_tokens_keys:
  "parse_tokens \<lparr>ps_next = n, ps_flag = fl, ps_top = \<lparr>f_tag = tg, f_alts = as, f_cur = []\<rparr>,
                 ps_stack = f # fs\<rparr> (key_tokens keys @ TClose # ts)
   = parse_tokens \<lparr>ps_next = n, ps_flag = Atom,
       ps_top = f\<lparr>f_cur :=
         wrap_group tg (alt_of (rev as @ map (\<lambda>k. seq_of (map Chr k))
                                  (if keys = [] then [[]] else keys))) # f_cur f\<rparr>,
       ps_stack = fs\<rparr> ts"
proof (induction keys arbitrary: fl as rule: key_tokens.induct)
  case 1
  show ?case by (simp add: close_frame_def wrap_group_def Let_def)
next
  case (2 k)
  show ?case
    by (simp add: parse_tokens_chars [where cur = "[]", simplified] close_frame_def wrap_group_def
        Let_def)
next
  case (3 k k' ks)
  have "parse_tokens \<lparr>ps_next = n, ps_flag = fl, ps_top = \<lparr>f_tag = tg, f_alts = as, f_cur = []\<rparr>,
                 ps_stack = f # fs\<rparr> (key_tokens (k # k' # ks) @ TClose # ts)
      = parse_tokens \<lparr>ps_next = n, ps_flag = NoAtom,
                 ps_top = \<lparr>f_tag = tg, f_alts = seq_of (map Chr k) # as, f_cur = []\<rparr>,
                 ps_stack = f # fs\<rparr> (key_tokens (k' # ks) @ TClose # ts)"
    using parse_tokens_chars [where cur = "[]" and xs = k and n = n and fl = fl and tg = tg
        and as = as and stk = "f # fs" and ts = "TBar # key_tokens (k' # ks) @ TClose # ts"]
    by simp
  also note "3.IH" [of NoAtom "seq_of (map Chr k) # as"]
  finally show ?case by simp
qed

lemma parse_rewriteReg_tokens:
  "parse_tokens parse_init (map TChar prefix @ TOpen # key_tokens keys @ suffix_tokens)
   = Inr (composite_pattern prefix keys)"
proof -
  have "parse_tokens parse_init (map TChar prefix @ TOpen # key_tokens keys @ suffix_tokens)
      = parse_tokens \<lparr>ps_next = 2, ps_flag = NoAtom,
          ps_top = \<lparr>f_tag = Some 1, f_alts = [], f_cur = []\<rparr>,
          ps_stack = [\<lparr>f_tag = None, f_alts = [], f_cur = rev (map Chr prefix)\<rparr>]\<rparr>
          (key_tokens keys @ TClose # tl suffix_tokens)"
    unfolding parse_init_def
    by (simp add: parse_tokens_chars [where cur = "[]", simplified] suffix_tokens_def
        numeral_2_eq_2)
  also have "\<dots> = parse_tokens \<lparr>ps_next = 2, ps_flag = Atom,
       ps_top = \<lparr>f_tag = None, f_alts = [],
          f_cur = Grp 1 (alt_of (map (\<lambda>k. seq_of (map Chr k)) (if keys = [] then [[]] else keys)))
                  # rev (map Chr prefix)\<rparr>,
       ps_stack = []\<rparr> (tl suffix_tokens)"
    by (simp add: parse_tokens_keys wrap_group_def)
  also have "\<dots> = Inr (composite_pattern prefix keys)"
    by (simp add: suffix_tokens_def composite_pattern_def close_frame_def html_suffix_def
        terminator_def push_term_def Let_def numeral_2_eq_2)
  finally show ?thesis .
qed

lemma RegExp_new_rewriteReg_source:
  assumes "literal (normalizePath (''/'' @ template_string b @ ''/''))" and "list_all literal keys"
  shows "RegExp_new (rewriteReg_source b keys)
         = Inr (composite_pattern (normalizePath (''/'' @ template_string b @ ''/'')) keys)"
proof -
  have "rewriteReg_source b keys
      = normalizePath (''/'' @ template_string b @ ''/'') @ ''('' @ join ''|'' keys @ suffix_source"
    by (simp add: rewriteReg_source_def suffix_source_def)
  then show ?thesis
    using tokenize_rewriteReg_source [OF assms] parse_rewriteReg_tokens
    by (simp add: RegExp_new_def)
qed

lemma set_object_keys: "set (object_keys m) = fst ` set m"
  by (auto simp: object_keys_def)

lemma config_success:
  assumes "config fs tmpl so pages b st = (Inr u, st')"
  obtains st1 r where "configInit fs tmpl so pages st = (Inr (), st1)"
    and "RegExp_new (rewriteReg_source b (object_keys (inputMap st1))) = Inr r"
    and "st' = st1\<lparr>rewriteReg := Some r\<rparr>"
  using assms by (auto simp: config_def split: prod.splits sum.splits)

lemma configInit_values_nonempty:
  assumes "configInit fs tmpl so pages st = (Inr u, st1)"
  shows "values_nonempty (inputMap st1)"
proof -
  from assms obtain found t where "configInit_loop
           \<lparr>tempInputMap = [], tempVirtualPageMap = page_map_empty, tempTplSet = {tmpl}\<rparr>
           (pages @ found) = Inr t"
    and "st1 = st\<lparr>inputMap := tempInputMap t, virtualPageMap := tempVirtualPageMap t,
                   tplSet := tempTplSet t\<rparr>"
    by (auto elim!: configInit_success)
  with configInit_loop_values_nonempty [of _ "pages @ found" t] show ?thesis
    by (simp add: values_nonempty_def)
qed




lemma about_configured:
  "config no_fs ''index.html'' None about_pages (Some ''/'') initial_state
   = (Inr (), example_state about_pages)"
  unfolding example_state_def by (rule pair_snd) code_simp

lemma root_prefix: "normalizePath (''/'' @ ''/'' @ ''/'') = ''/''"
  by code_simp


subsection \<open>Matching the composite pattern\<close>

lemma adv_simps [simp]:
  "m_pos (adv x n) = m_pos x + n" "m_rest (adv x n) = drop n (m_rest x)"
  "m_caps (adv x n) = m_caps x"
  by (simp_all add: adv_def)

lemma adv_0 [simp]: "adv x 0 = x"
  by (simp add: adv_def)

lemma adv_adv [simp]: "adv (adv x a) b = adv x (a + b)"
  by (simp add: adv_def add.commute add.left_commute)

lemma M_Chr: "M (Chr c) x = (if startsWith (m_rest x) [c] then [adv x 1] else [])"
  by (cases "m_rest x") (auto simp: adv_def)

lemma M_literal_adv:
  "M (seq_of (map Chr w)) x = (if startsWith (m_rest x) w then [adv x (length w)] else [])"
  by (simp add: M_literal adv_def)

lemma startsWith_drop_append:
  "startsWith s (a @ b) \<longleftrightarrow> startsWith s a \<and> startsWith (drop (length a) s) b"
  by (auto simp: startsWith_append)

lemma M_literal_then:
  "M (seq_of (map Chr w @ rs)) x =
     (if startsWith (m_rest x) w then M (seq_of rs) (adv x (length w)) else [])"
proof (induction w arbitrary: x)
  case Nil
  show ?case by simp
next
  case (Cons c w)
  show ?case
  proof (cases "m_rest x")
    case Nil
    then show ?thesis by simp
  next
    case (Cons d ds)
    then show ?thesis
      using Cons.IH [of "adv x 1"] by (simp add: M_Chr del: M.simps(1))
  qed
qed

lemma alt_of_Cons: "rs \<noteq> [] \<Longrightarrow> alt_of (r # rs) = Alt r (alt_of rs)"
  by (cases rs) simp_all

lemma M_alternatives:
  "ks \<noteq> [] \<Longrightarrow>
   M (alt_of (map (\<lambda>k. seq_of (map Chr k)) ks)) x
   = concat (map (\<lambda>k. if startsWith (m_rest x) k then [adv x (length k)] else []) ks)"
proof (induction ks)
  case Nil
  then show ?case by simp
next
  case (Cons k ks)
  show ?case
  proof (cases "ks = []")
    case True
    then show ?thesis by (simp add: M_literal_adv)
  next
    case False
    with Cons.IH show ?thesis by (simp add: alt_of_Cons M_literal_adv)
  qed
qed

lemma reset_caps_Nil [simp]: "reset_caps [] x = x"
  by (simp add: reset_caps_def)

lemma star_greedy_nonempty: "star m gs True x \<noteq> []"
  by (subst star.simps) (simp add: Let_def)

lemma star_caps:
  "(\<And>y z. z \<in> set (m y) \<Longrightarrow> m_caps z n = m_caps y n) \<Longrightarrow> n \<notin> set gs \<Longrightarrow>
   z \<in> set (star m gs g x) \<Longrightarrow> m_caps z n = m_caps x n"
proof (induction m gs g x arbitrary: z rule: star.induct)
  case (1 m gs greedy x)
  from "1.prems"(3) consider "z = x"
    | y where "y \<in> set (m (reset_caps gs x))" "length (m_rest y) < length (m_rest x)"
        "z \<in> set (star m gs greedy y)"
    by (subst (asm) star.simps) (auto simp: Let_def split: if_splits)
  then show ?case
  proof cases
    case 1
    then show ?thesis by simp
  next
    case 2
    from "1.IH" [OF refl _ "1.prems"(1,2) 2(3)] 2(1,2) have "m_caps z n = m_caps y n" by simp
    also from "1.prems"(1) [OF 2(1)] "1.prems"(2) have "m_caps y n = m_caps x n"
      by (simp add: reset_caps_def)
    finally show ?thesis .
  qed
qed

lemma M_caps_other:
  "n \<notin> set (groups_of r) \<Longrightarrow> z \<in> set (M r x) \<Longrightarrow> m_caps z n = m_caps x n"
proof (induction r arbitrary: x z)
  case (Chr c)
  then show ?case by (auto split: list.splits if_splits)
next
  case Dot
  then show ?case by (auto split: list.splits if_splits)
next
  case (Rep q g r)
  have pres: "\<And>y z. z \<in> set (M r y) \<Longrightarrow> m_caps z n = m_caps y n"
    using Rep.IH Rep.prems(1) by simp
  have n: "n \<notin> set (groups_of r)" using Rep.prems(1) by simp
  show ?case
  proof (cases q)
    case Star
    with Rep.prems(2) show ?thesis using star_caps [of "M r" n, OF pres n] by simp
  next
    case Plus
    with Rep.prems(2) obtain y where y: "y \<in> set (M r (reset_caps (groups_of r) x))"
      and z: "z \<in> set (star (M r) (groups_of r) g y)" by auto
    from star_caps [of "M r" n, OF pres n z] pres [OF y] n show ?thesis
      by (simp add: reset_caps_def)
  next
    case Quest
    with Rep.prems(2) consider "z = x" | "z \<in> set (M r (reset_caps (groups_of r) x))"
      by (auto simp: Let_def split: if_splits)
    then show ?thesis
    proof cases
      case 1
      then show ?thesis by simp
    next
      case 2
      from pres [OF 2] n show ?thesis by (simp add: reset_caps_def)
    qed
  qed
qed (auto split: if_splits)

lemma M_terminator_nonempty: "M terminator y \<noteq> [] \<longleftrightarrow> end_ok (m_rest y)"
  by (cases "m_rest y") (auto simp: terminator_def end_ok_def)

lemma M_Seq_Eps: "M (Seq r Eps) x = M r x"
proof -
  have "M Eps = (\<lambda>x. [x])" by (rule ext) simp
  then show ?thesis by simp
qed

lemma concat_map_M_Eps: "concat (map (M Eps) xs) = xs"
  by (induction xs) auto

lemma ex_member: "(\<exists>x. x \<in> set xs) \<longleftrightarrow> xs \<noteq> []"
  by (cases xs) auto

lemma concat_map_nonempty: "concat (map f xs) \<noteq> [] \<longleftrightarrow> (\<exists>x \<in> set xs. f x \<noteq> [])"
  by (induction xs) auto

lemma M_optional_greedy:
  "M (Rep Quest True r) x
   = filter (\<lambda>y. m_pos y \<noteq> m_pos x) (M r (reset_caps (groups_of r) x)) @ [x]"
  by (simp add: Let_def)

lemma M_html_suffix:
  "set (M html_suffix y) =
     {y} \<union> (if startsWith (m_rest y) ''.htm''
            then {adv y 4} \<union> (if startsWith (drop 4 (m_rest y)) ''l'' then {adv y 5} else {})
            else {})"
proof -
  define H where "H = seq_of (map Chr ''.htm'' @ [Rep Quest True (Chr CHR ''l'')])"
  have opt_l: "\<And>x. M (Rep Quest True (Chr CHR ''l'')) x
      = (if startsWith (m_rest x) ''l'' then [adv x 1] else []) @ [x]"
    unfolding M_optional_greedy M_Chr by simp
  have MH: "M H y
      = (if startsWith (m_rest y) ''.htm''
         then (if startsWith (drop 4 (m_rest y)) ''l'' then [adv y 5] else []) @ [adv y 4]
         else [])"
    unfolding H_def M_literal_then seq_of_Cons seq_of_Nil M_Seq_Eps opt_l
    by (simp add: eval_nat_numeral)
  have gH: "groups_of H = []"
    by (simp add: H_def)
  have eq: "html_suffix = Rep Quest True H"
    by (simp add: html_suffix_def H_def)
  have "M html_suffix y = filter (\<lambda>z. m_pos z \<noteq> m_pos y) (M H y) @ [y]"
    unfolding eq M_optional_greedy gH reset_caps_Nil ..
  then show ?thesis
    unfolding MH by auto
qed

lemma M_Star_greedy_nonempty: "M (Rep Star True r) x \<noteq> []"
  by (simp add: star_greedy_nonempty)

lemma M_suffix_nonempty: "M (seq_of suffix_pattern) y \<noteq> [] \<longleftrightarrow> tail_ok (m_rest y)"
proof -
  have "M (seq_of suffix_pattern) y
      = concat (map (\<lambda>y1. concat (map (M (Rep Star True Dot)) (M terminator y1))) (M html_suffix y))"
    unfolding suffix_pattern_def seq_of_Cons seq_of_Nil M.simps(6) concat_map_M_Eps ..
  then have "M (seq_of suffix_pattern) y \<noteq> []
      \<longleftrightarrow> (\<exists>y1 \<in> set (M html_suffix y). \<exists>y2 \<in> set (M terminator y1). M (Rep Star True Dot) y2 \<noteq> [])"
    by (simp only: concat_map_nonempty)
  also have "\<dots> \<longleftrightarrow> (\<exists>y1 \<in> set (M html_suffix y). M terminator y1 \<noteq> [])"
    unfolding M_Star_greedy_nonempty [THEN eqTrueI] by (auto simp: ex_member)
  also have "\<dots> \<longleftrightarrow> tail_ok (m_rest y)"
    unfolding M_terminator_nonempty M_html_suffix by (auto simp: tail_ok_def)
  finally show ?thesis .
qed

lemma M_suffix_caps: "z \<in> set (M (seq_of suffix_pattern) y) \<Longrightarrow> m_caps z 1 = m_caps y 1"
  by (rule M_caps_other [of 1 "seq_of suffix_pattern"])
     (simp_all add: suffix_pattern_def html_suffix_def terminator_def)

lemma startsWith_take: "startsWith s k \<Longrightarrow> take (length k) s = k"
  by (simp add: startsWith_def)

lemma M_name_group:
  assumes "ks \<noteq> []"
  shows "M (Grp n (alt_of (map (\<lambda>k. seq_of (map Chr k)) ks))) x
         = concat (map (\<lambda>k. if startsWith (m_rest x) k then [named n x k] else []) ks)"
proof -
  have h: "\<And>k. map (\<lambda>y. y\<lparr>m_caps := (m_caps y)(n \<mapsto> take (m_pos y - m_pos x) (m_rest x))\<rparr>)
             (if startsWith (m_rest x) k then [adv x (length k)] else [])
           = (if startsWith (m_rest x) k then [named n x k] else [])"
    by (simp add: startsWith_take named_def)
  show ?thesis
    unfolding M.simps(8) M_alternatives [OF assms] map_concat map_map comp_def h ..
qed

lemma composite_pattern_split:
  "composite_pattern prefix ks =
     seq_of (map Chr prefix
             @ Grp 1 (alt_of (map (\<lambda>k. seq_of (map Chr k)) (if ks = [] then [[]] else ks)))
             # suffix_pattern)"
  by (simp add: composite_pattern_def suffix_pattern_def)

lemma M_seq_of_Cons: "M (seq_of (r # rs)) x = concat (map (M (seq_of rs)) (M r x))"
  by simp

lemma M_composite:
  "M (composite_pattern prefix ks) x =
     (if startsWith (m_rest x) prefix
      then concat (map (M (seq_of suffix_pattern))
             (concat (map (\<lambda>k. if startsWith (drop (length prefix) (m_rest x)) k
                                then [named 1 (adv x (length prefix)) k] else [])
                          (if ks = [] then [[]] else ks))))
      else [])"
proof -
  have ne: "(if ks = [] then [[]] else ks) \<noteq> []" by simp
  show ?thesis
    apply (unfold composite_pattern_split M_literal_then M_seq_of_Cons M_name_group [OF ne]
        adv_simps)
    apply (rule refl)
    done
qed

lemma composite_member:
  "z \<in> set (M (composite_pattern prefix ks) x) \<longleftrightarrow>
     startsWith (m_rest x) prefix
     \<and> (\<exists>k \<in> set (if ks = [] then [[]] else ks).
           startsWith (drop (length prefix) (m_rest x)) k
           \<and> z \<in> set (M (seq_of suffix_pattern) (named 1 (adv x (length prefix)) k)))"
proof (cases "startsWith (m_rest x) prefix")
  case True
  have "z \<in> set (M (composite_pattern prefix ks) x) \<longleftrightarrow>
      (\<exists>y \<in> set (concat (map (\<lambda>k. if startsWith (drop (length prefix) (m_rest x)) k
                                then [named 1 (adv x (length prefix)) k] else [])
                          (if ks = [] then [[]] else ks))).
         z \<in> set (M (seq_of suffix_pattern) y))"
    unfolding M_composite using True by simp
  also have "\<dots> \<longleftrightarrow> (\<exists>k \<in> set (if ks = [] then [[]] else ks).
           startsWith (drop (length prefix) (m_rest x)) k
           \<and> z \<in> set (M (seq_of suffix_pattern) (named 1 (adv x (length prefix)) k)))"
    by (auto split: if_splits)
  finally show ?thesis using True by simp
next
  case False
  then show ?thesis unfolding M_composite by simp
qed

lemma composite_results:
  assumes "z \<in> set (M (composite_pattern prefix ks) x)"
  shows "\<exists>k \<in> set (if ks = [] then [[]] else ks).
           startsWith (m_rest x) (prefix @ k)
           \<and> tail_ok (drop (length prefix + length k) (m_rest x))
           \<and> m_caps z 1 = Some k"
proof -
  from assms [unfolded composite_member] obtain k where sw: "startsWith (m_rest x) prefix"
    and k: "k \<in> set (if ks = [] then [[]] else ks)"
      "startsWith (drop (length prefix) (m_rest x)) k"
    and z: "z \<in> set (M (seq_of suffix_pattern) (named 1 (adv x (length prefix)) k))"
    by blast
  from z have "M (seq_of suffix_pattern) (named 1 (adv x (length prefix)) k) \<noteq> []"
    by (metis empty_iff empty_set)
  then have "tail_ok (drop (length prefix + length k) (m_rest x))"
    by (simp add: M_suffix_nonempty named_def add.commute)
  moreover from M_suffix_caps [OF z] have "m_caps z 1 = Some k" by (simp add: named_def)
  moreover from sw k(2) have "startsWith (m_rest x) (prefix @ k)"
    by (simp add: startsWith_drop_append)
  ultimately show ?thesis using k(1) by blast
qed

lemma composite_nonempty:
  assumes "k \<in> set (if ks = [] then [[]] else ks)"
    and "startsWith (m_rest x) (prefix @ k)"
    and "tail_ok (drop (length prefix + length k) (m_rest x))"
  shows "M (composite_pattern prefix ks) x \<noteq> []"
proof -
  from assms(2) have sw: "startsWith (m_rest x) prefix"
    "startsWith (drop (length prefix) (m_rest x)) k"
    by (simp_all add: startsWith_drop_append)
  from assms(3) have "M (seq_of suffix_pattern) (named 1 (adv x (length prefix)) k) \<noteq> []"
    by (simp add: M_suffix_nonempty named_def add.commute)
  then obtain z where "z \<in> set (M (seq_of suffix_pattern) (named 1 (adv x (length prefix)) k))"
    by (meson last_in_set)
  with sw assms(1) have "z \<in> set (M (composite_pattern prefix ks) x)"
    unfolding composite_member by blast
  then show ?thesis by (metis empty_iff empty_set)
qed

lemma exec_from_hit:
  "M r \<lparr>m_pos = i, m_rest = s, m_caps = Map.empty\<rparr> = z # zs \<Longrightarrow>
   exec_from r i s = Some \<lparr>index = i, matched = take (m_pos z - i) s, groups = m_caps z\<rparr>"
  by simp

lemma exec_from_Some:
  "exec_from r i s = Some mt \<Longrightarrow>
   \<exists>j z. j \<le> length s
     \<and> z \<in> set (M r \<lparr>m_pos = i + j, m_rest = drop j s, m_caps = Map.empty\<rparr>)
     \<and> groups mt = m_caps z"
proof (induction s arbitrary: i)
  case Nil
  then obtain z zs where "M r \<lparr>m_pos = i, m_rest = [], m_caps = Map.empty\<rparr> = z # zs"
    and "groups mt = m_caps z"
    by (auto split: list.splits)
  then have "z \<in> set (M r \<lparr>m_pos = i + 0, m_rest = drop 0 [], m_caps = Map.empty\<rparr>)" by simp
  with \<open>groups mt = m_caps z\<close> show ?case by blast
next
  case (Cons c s)
  show ?case
  proof (cases "M r \<lparr>m_pos = i, m_rest = c # s, m_caps = Map.empty\<rparr>")
    case Nil
    with Cons.prems have "exec_from r (Suc i) s = Some mt" by simp
    from Cons.IH [OF this] obtain j z where "j \<le> length s"
      "z \<in> set (M r \<lparr>m_pos = Suc i + j, m_rest = drop j s, m_caps = Map.empty\<rparr>)"
      "groups mt = m_caps z" by blast
    then have "Suc j \<le> length (c # s)
      \<and> z \<in> set (M r \<lparr>m_pos = i + Suc j, m_rest = drop (Suc j) (c # s), m_caps = Map.empty\<rparr>)
      \<and> groups mt = m_caps z" by simp
    then show ?thesis by blast
  next
    case (Cons z zs)
    with Cons.prems have "groups mt = m_caps z" by auto
    moreover from Cons
    have "z \<in> set (M r \<lparr>m_pos = i + 0, m_rest = drop 0 (c # s), m_caps = Map.empty\<rparr>)" by simp
    ultimately show ?thesis by blast
  qed
qed

lemma tail_ok_hd:
  "tail_ok t \<Longrightarrow> t \<noteq> [] \<Longrightarrow> hd t = CHR ''?'' \<or> hd t = CHR ''#'' \<or> hd t = CHR ''.''"
  by (cases t) (auto simp: tail_ok_def end_ok_def)

lemma plain_name_hd:
  "plain_name s \<Longrightarrow> c \<in> set s \<Longrightarrow> c \<noteq> CHR ''?'' \<and> c \<noteq> CHR ''#'' \<and> c \<noteq> CHR ''.'' "
  by (auto simp: plain_name_def list_all_iff syntax_chars_def)

lemma plain_tail_ok: "plain_name s \<Longrightarrow> tail_ok s \<Longrightarrow> s = []"
  using tail_ok_hd [of s] plain_name_hd [of s "hd s"] by (cases s) auto

lemma plain_name_drop: "plain_name s \<Longrightarrow> plain_name (drop n s)"
  by (auto simp: plain_name_def list_all_iff dest: in_set_dropD)

lemma plain_name_literal: "plain_name s \<Longrightarrow> literal s"
  by (auto simp: plain_name_def literal_def list_all_iff)

lemma name_unique:
  assumes "plain_name k" and "plain_name p" and "tail_ok tail"
    and "startsWith (p @ tail) k" and "tail_ok (drop (length k) (p @ tail))"
  shows "k = p"
proof (cases "length k \<le> length p")
  case True
  from assms(4) have "take (length k) (p @ tail) = k" by (simp add: startsWith_def)
  with True have k: "take (length k) p = k" by simp
  show ?thesis
  proof (cases "length k < length p")
    case lt: True
    then have d: "drop (length k) (p @ tail) = drop (length k) p @ tail" by simp
    from lt have ne: "drop (length k) p \<noteq> []" by simp
    then have "hd (drop (length k) (p @ tail)) = hd (drop (length k) p)"
      unfolding d by simp
    also have "\<dots> = p ! length k" using lt by (simp add: hd_drop_conv_nth)
    finally have "hd (drop (length k) (p @ tail)) \<in> set p" using lt by simp
    moreover from ne have "drop (length k) (p @ tail) \<noteq> []" unfolding d by simp
    ultimately show ?thesis
      using plain_name_hd [OF assms(2)] tail_ok_hd [OF assms(5)] by blast
  next
    case False
    with True have "length k = length p" by simp
    with k show ?thesis by simp
  qed
next
  case False
  then have lt: "length p < length k" by simp
  from assms(4) have "take (length k) (p @ tail) = k" by (simp add: startsWith_def)
  with lt have k: "p @ take (length k - length p) tail = k" by simp
  have ne: "tail \<noteq> []"
  proof
    assume "tail = []"
    with k have "p = k" by simp
    with lt show False by simp
  qed
  have "k ! length p = (p @ take (length k - length p) tail) ! length p" using k by simp
  also have "\<dots> = take (length k - length p) tail ! 0" by (simp add: nth_append)
  also have "\<dots> = tail ! 0" using lt by simp
  also have "\<dots> = hd tail" using ne by (simp add: hd_conv_nth)
  finally have "hd tail \<in> set k" using lt by (metis nth_mem)
  with plain_name_hd [OF assms(1)] tail_ok_hd [OF assms(3) ne] show ?thesis by blast
qed

lemma prefix_only_at_start:
  assumes "prefix \<noteq> []" and "last prefix \<notin> set v"
    and "startsWith (drop j (prefix @ v)) prefix"
  shows "j = 0"
proof (rule ccontr)
  assume "j \<noteq> 0"
  then obtain j' where j: "j = Suc j'" by (cases j) auto
  let ?n = "length prefix"
  from assms(1) have n: "0 < ?n" by simp
  from assms(3) have t: "take ?n (drop j (prefix @ v)) = prefix" by (simp add: startsWith_def)
  have "length (take ?n (drop j (prefix @ v))) \<le> length (prefix @ v) - j"
    by simp
  then have len: "?n \<le> length (prefix @ v) - j"
    unfolding t .
  have jl: "j \<le> length (prefix @ v)"
  proof -
    from n obtain m where "?n = Suc m" by (cases ?n) auto
    with len show ?thesis by simp
  qed
  have "last prefix = prefix ! (?n - 1)" using assms(1) by (simp add: last_conv_nth)
  also have "\<dots> = take ?n (drop j (prefix @ v)) ! (?n - 1)" unfolding t ..
  also have "\<dots> = drop j (prefix @ v) ! (?n - 1)" by (rule nth_take) (use n in simp)
  also have "\<dots> = (prefix @ v) ! (j + (?n - 1))" using jl by (rule nth_drop)
  also have "j + (?n - 1) = ?n + j'" using j n by simp
  also have "(prefix @ v) ! (?n + j') = v ! j'" by (rule nth_append_length_plus)
  finally have "last prefix = v ! j'" .
  moreover have "j' < length v"
  proof -
    from n obtain m where "?n = Suc m" by (cases ?n) auto
    with len j show ?thesis by simp
  qed
  ultimately show False using assms(2) by (metis nth_mem)
qed

lemma inputMapKey_registered:
  assumes "rewriteReg st = Some (composite_pattern prefix ks)"
    and "p \<in> set ks" and "list_all plain_name ks" and "tail_ok tail"
  shows "inputMapKey st (prefix @ p @ tail) = Some p"
proof -
  let ?x = "\<lparr>m_pos = 0, m_rest = prefix @ p @ tail, m_caps = Map.empty\<rparr>"
  from assms(2) have ks: "(if ks = [] then [[]] else ks) = ks" by auto
  have "M (composite_pattern prefix ks) ?x \<noteq> []"
    by (rule composite_nonempty [of p]) (use assms(2,4) ks in \<open>simp_all add: startsWith_append\<close>)
  then obtain z zs where zs: "M (composite_pattern prefix ks) ?x = z # zs"
    by (cases "M (composite_pattern prefix ks) ?x") auto
  then have "z \<in> set (M (composite_pattern prefix ks) ?x)" by simp
  from composite_results [OF this] obtain k where k: "k \<in> set ks"
    "startsWith (prefix @ p @ tail) (prefix @ k)"
    "tail_ok (drop (length prefix + length k) (prefix @ p @ tail))"
    "m_caps z 1 = Some k"
    unfolding ks by auto
  from k(1) assms(2,3) have "plain_name k" "plain_name p" by (auto simp: list_all_iff)
  moreover from k(2) have "startsWith (p @ tail) k" by (simp add: startsWith_append)
  moreover from k(3) have "tail_ok (drop (length k) (p @ tail))" by simp
  ultimately have "k = p" using assms(4) by (blast intro: name_unique)
  with k(4) exec_from_hit [OF zs] assms(1) show ?thesis
    by (simp add: inputMapKey_def String_match_def RegExp_exec_def)
qed

lemma inputMapKey_unknown:
  assumes "rewriteReg st = Some (composite_pattern prefix ks)"
    and "prefix \<noteq> []" and "last prefix = CHR ''/''" and "CHR ''/'' \<notin> set v"
    and "plain_name v" and "v \<notin> set ks"
  shows "\<not> truthy (inputMapKey st (prefix @ v))"
proof (cases "exec_from (composite_pattern prefix ks) 0 (prefix @ v)")
  case None
  with assms(1) show ?thesis
    by (simp add: inputMapKey_def String_match_def RegExp_exec_def truthy_def)
next
  case (Some mt)
  from exec_from_Some [OF this] obtain j z where
    z: "z \<in> set (M (composite_pattern prefix ks)
                  \<lparr>m_pos = 0 + j, m_rest = drop j (prefix @ v), m_caps = Map.empty\<rparr>)"
    and g: "groups mt = m_caps z" by blast
  from composite_results [OF z] obtain k where k: "k \<in> set (if ks = [] then [[]] else ks)"
    "startsWith (drop j (prefix @ v)) (prefix @ k)"
    "tail_ok (drop (length prefix + length k) (drop j (prefix @ v)))"
    "m_caps z 1 = Some k"
    by auto
  from k(2) have "startsWith (drop j (prefix @ v)) prefix"
    by (simp add: startsWith_drop_append)
  with assms(2,3,4) have j: "j = 0" using prefix_only_at_start [of prefix v j] by simp
  from k(2) j have sw: "startsWith v k" by (simp add: startsWith_append)
  from k(3) j have "tail_ok (drop (length k) v)" by simp
  with plain_name_drop [OF assms(5)] have "drop (length k) v = []" by (rule plain_tail_ok)
  with sw have "k = v" by (simp add: startsWith_def)
  with k(1) assms(6) have "k = []" by (auto split: if_splits)
  with k(4) g Some assms(1) show ?thesis
    by (simp add: inputMapKey_def String_match_def RegExp_exec_def truthy_def)
qed

lemma posix_normalize_slashes:
  assumes "p \<noteq> []" and "hd p = CHR ''/''" and "last p = CHR ''/''"
  shows "posix_normalize p \<noteq> [] \<and> last (posix_normalize p) = CHR ''/''"
  using assms by (simp add: posix_normalize_def Let_def)

lemma normalizePath_prefix:
  "normalizePath (''/'' @ s @ ''/'') \<noteq> [] \<and> last (normalizePath (''/'' @ s @ ''/'')) = CHR ''/''"
  unfolding normalizePath_def by (rule posix_normalize_slashes) simp_all

lemma resolve_Serve:
  "inputMapKey st pathname = Some p \<Longrightarrow> p \<noteq> [] \<Longrightarrow> js_get (inputMap st) p = Own f \<Longrightarrow> f \<noteq> [] \<Longrightarrow>
   resolve st pathname = Serve f"
  by (simp add: resolve_def fileName_def truthy_def js_truthy_def)

lemma resolve_Next:
  "\<not> truthy (inputMapKey st pathname) \<Longrightarrow> resolve st pathname = Next"
  by (simp add: resolve_def fileName_def js_truthy_def)

lemma tail_ok_examples: "tail_ok []" "tail_ok ''.html''" "tail_ok ''?x=1''"
  by (simp_all add: tail_ok_def end_ok_def)

lemma js_get_Own: "js_get m k = Own v \<longleftrightarrow> map_of m k = Some v"
  by (auto simp: js_get_def split: option.splits)

text \<open>
  The round trip, where it holds. Let the table be built by \<open>config\<close> for a configured
  base path, with a normalized base prefix and registered names that have no syntax
  character of regular expressions, the names no \<open>#\<close> either. Then for every
  registered page with a non-empty name \<open>p\<close> and served path \<open>f\<close> the paths
  \<open>/{base}/p\<close>, \<open>/{base}/p.html\<close> and \<open>/{base}/p?x=1\<close> resolve to \<open>f\<close>; for
  every name \<open>v\<close> of such characters and without \<open>/\<close> that is not in the table,
  \<open>/{base}/v\<close> resolves to nothing (the request is passed on). And in any state, a
  match whose captured name is not in the name map, and is no member inherited from
  \<open>Object.prototype\<close> either, resolves to nothing, not to an error.
\<close>

lemma resolve_round_trip:
  assumes "config fs tmpl so pages (Some b) st = (Inr u, st')"
    and "literal (normalizePath (''/'' @ b @ ''/''))"
    and "list_all plain_name (map fst (inputMap st'))"
  shows "(js_get (inputMap st') p = Own f \<and> p \<noteq> [] \<longrightarrow>
            resolve st' (normalizePath (''/'' @ b @ ''/'') @ p) = Serve f
          \<and> resolve st' (normalizePath (''/'' @ b @ ''/'') @ p @ ''.html'') = Serve f
          \<and> resolve st' (normalizePath (''/'' @ b @ ''/'') @ p @ ''?x=1'') = Serve f)
       \<and> (plain_name v \<and> CHR ''/'' \<notin> set v \<and> map_of (inputMap st') v = None \<longrightarrow>
            resolve st' (normalizePath (''/'' @ b @ ''/'') @ v) = Next)
       \<and> (inputMapKey st2 pathname = Some k \<and> js_get (inputMap st2) k = Undefined \<longrightarrow>
            resolve st2 pathname = Next)"
proof -
  let ?prefix = "normalizePath (''/'' @ b @ ''/'')"
  from assms(1) obtain st1 r where st1: "configInit fs tmpl so pages st = (Inr (), st1)"
    and r: "RegExp_new (rewriteReg_source (Some b) (object_keys (inputMap st1))) = Inr r"
    and st': "st' = st1\<lparr>rewriteReg := Some r\<rparr>"
    by (rule config_success)
  from st' have im: "inputMap st' = inputMap st1" by simp
  from assms(3) have plain: "list_all plain_name (object_keys (inputMap st1))"
    by (auto simp: list_all_iff set_object_keys im)
  then have "list_all literal (object_keys (inputMap st1))"
    by (auto simp: list_all_iff plain_name_literal)
  from RegExp_new_rewriteReg_source [of "Some b", OF _ this] assms(2) r st'
  have reg: "rewriteReg st' = Some (composite_pattern ?prefix (object_keys (inputMap st1)))"
    by (simp add: template_string_def)
  have ne: "values_nonempty (inputMap st')"
    using configInit_values_nonempty [OF st1] im by simp
  have 1: "resolve st' (?prefix @ p @ tail) = Serve f"
    if "js_get (inputMap st') p = Own f" "p \<noteq> []" "tail_ok tail" for tail
  proof -
    from that(1) have m: "map_of (inputMap st') p = Some f" by (simp add: js_get_Own)
    then have "p \<in> set (object_keys (inputMap st1))"
      by (auto simp: set_object_keys im dest!: map_of_SomeD intro: rev_image_eqI)
    from inputMapKey_registered [OF reg this plain that(3)]
    have "inputMapKey st' (?prefix @ p @ tail) = Some p" .
    moreover from m ne have "f \<noteq> []"
      by (auto simp: values_nonempty_def list_all_iff dest!: map_of_SomeD)
    ultimately show ?thesis using that(1,2) by (blast intro: resolve_Serve)
  qed
  have 2: "resolve st' (?prefix @ v) = Next"
    if "plain_name v" "CHR ''/'' \<notin> set v" "map_of (inputMap st') v = None"
  proof -
    from that(3) have "v \<notin> set (object_keys (inputMap st1))"
      by (simp add: set_object_keys im map_of_eq_None_iff)
    from inputMapKey_unknown [OF reg _ _ that(2,1) this] normalizePath_prefix [of b]
    show ?thesis by (simp add: resolve_Next)
  qed
  have 3: "resolve st2 pathname = Next"
    if "inputMapKey st2 pathname = Some k" "js_get (inputMap st2) k = Undefined"
    using that by (auto simp: resolve_def fileName_def js_truthy_def Let_def)
  from 1 [of "[]"] 1 [of "''.html''"] 1 [of "''?x=1''"] 2 3 show ?thesis
    by (simp add: tail_ok_examples)
qed

lemma resolve_round_trip_example:
  "config no_fs ''index.html'' None about_pages (Some ''/'') initial_state
     = (Inr (), example_state about_pages)
   \<and> literal (normalizePath (''/'' @ ''/'' @ ''/''))
   \<and> list_all plain_name (map fst (inputMap (example_state about_pages)))
   \<and> js_get (inputMap (example_state about_pages)) ''about'' = Own ''about.html''
   \<and> resolve (example_state about_pages) ''/about'' = Serve ''about.html''
   \<and> resolve (example_state about_pages) ''/about.html'' = Serve ''about.html''
   \<and> resolve (example_state about_pages) ''/about?x=1'' = Serve ''about.html''
   \<and> map_of (inputMap (example_state about_pages)) ''unknown'' = None
   \<and> resolve (example_state about_pages) ''/unknown'' = Next
   \<and> inputMapKey stale_state ''/about'' = Some ''about''
   \<and> js_get (inputMap stale_state) ''about'' = Undefined
   \<and> resolve stale_state ''/about'' = Next"
proof -
  have l: "literal (normalizePath (''/'' @ ''/'' @ ''/''))"
    by code_simp
  have n: "list_all plain_name (map fst (inputMap (example_state about_pages)))"
    by code_simp
  have a: "js_get (inputMap (example_state about_pages)) ''about'' = Own ''about.html''"
    by code_simp
  have u: "plain_name ''unknown''" "CHR ''/'' \<notin> set ''unknown''"
    "map_of (inputMap (example_state about_pages)) ''unknown'' = None"
    by code_simp+
  have s: "inputMapKey stale_state ''/about'' = Some ''about''"
    "js_get (inputMap stale_state) ''about'' = Undefined"
    by code_simp+
  from resolve_round_trip [OF about_configured l n, of "''about''" "''about.html''" "''unknown''"
      stale_state "''/about''" "''about''"] a u s
  have "resolve (example_state about_pages) ''/about'' = Serve ''about.html''
   \<and> resolve (example_state about_pages) ''/about.html'' = Serve ''about.html''
   \<and> resolve (example_state about_pages) ''/about?x=1'' = Serve ''about.html''
   \<and> resolve (example_state about_pages) ''/unknown'' = Next
   \<and> resolve stale_state ''/about'' = Next"
    unfolding root_prefix by simp
  with about_configured l n a u s show ?thesis by blast
qed

text \<open>
  Two more configurations in which a registered page is not reached at its path. When
  the configuration handed to the \<open>config\<close> hook sets no base, the pattern's prefix is
  \<open>/undefined/\<close>: the page \<open>about\<close> is registered and \<open>/about\<close> is passed on. And
  \<open>reloadPages\<close> rebuilds the tables, not the pattern: after a reload that adds the
  page \<open>new\<close>, the page is registered and \<open>/new\<close> is passed on.
\<close>

lemma resolve_unset_base:
  "js_get (inputMap unset_base_state) ''about'' = Own ''about.html''
   \<and> resolve unset_base_state ''/about'' = Next"
  by code_simp

lemma resolve_after_reload:
  "js_get (inputMap reloaded_state) ''new'' = Own ''new.html''
   \<and> resolve reloaded_state ''/new'' = Next"
  by code_simp

text \<open>
  C4. The claim: every registered page \<open>p\<close> with served path \<open>f\<close> is reached at
  \<open>/{base}/p\<close>, \<open>/{base}/p.html\<close> and \<open>/{base}/p?x=1\<close>. The code registers
  each name in the name map and puts it into the composite pattern, and there the name
  stands unescaped. For the registered page \<open>a+b\<close>, with served path \<open>a+b.html\<close>,
  and the base \<open>/\<close>, the pattern reads \<open>a+b\<close> as one or more \<open>a\<close> followed by \<open>b\<close>,
  and none of the three paths resolves: each request is passed on. For names and a base
  prefix without syntax characters the pages are reached (\<open>resolve_round_trip\<close>).
\<close>

theorem resolve_page_name_with_plus:
  "js_get (inputMap (example_state [simple_page ''a+b''])) ''a+b'' = Own ''a+b.html''
   \<and> resolve (example_state [simple_page ''a+b'']) ''/a+b'' = Next
   \<and> resolve (example_state [simple_page ''a+b'']) ''/a+b.html'' = Next
   \<and> resolve (example_state [simple_page ''a+b'']) ''/a+b?x=1'' = Next"
  by code_simp

theorem resolve_page_name_with_plus_witness:
  "resolve (example_state [simple_page ''a+b'']) ''/a+b'' \<noteq> Serve ''a+b.html''
   \<and> resolve (example_state [simple_page ''a+b'']) ''/a+b.html'' \<noteq> Serve ''a+b.html''
   \<and> resolve (example_state [simple_page ''a+b'']) ''/a+b?x=1'' \<noteq> Serve ''a+b.html''"
  using resolve_page_name_with_plus by simp

section \<open>Custom rewrite rules\<close>

lemma find_first:
  "\<forall>r \<in> set before. \<not> P r \<Longrightarrow> P x \<Longrightarrow> find P (before @ x # after) = Some x"
  by (induction before) auto

text \<open>
  A pattern with neither \<open>g\<close> nor \<open>y\<close> is searched from index 0 and is left as it
  was. For the object made from a pattern of the fragment above, without flags,
  \<open>RegExpBuiltinExec\<close> is the \<open>exec\<close> used for the program's own patterns.
\<close>

lemma RegExpBuiltinExec_stateless:
  "\<not> global R \<Longrightarrow> \<not> sticky R \<Longrightarrow> RegExpBuiltinExec R S = (scan (RegExpMatcher R) S 0, R)"
  by (auto simp: RegExpBuiltinExec_def split: option.splits)

lemma RegExp_prototype_test_stateless:
  "\<not> global R \<Longrightarrow> \<not> sticky R \<Longrightarrow>
   RegExp_prototype_test R S = (fst (RegExpBuiltinExec R S) \<noteq> None, R)"
  by (simp add: RegExp_prototype_test_def RegExpBuiltinExec_stateless)

lemma String_prototype_match_stateless:
  "\<not> global R \<Longrightarrow> \<not> sticky R \<Longrightarrow>
   String_prototype_match S R = (map_option Exec (fst (RegExpBuiltinExec R S)), R)"
  by (simp add: String_prototype_match_def RegExpBuiltinExec_stateless)

lemma find_rewrite_stateless:
  assumes "\<forall>item \<in> set rules. \<not> global (h (rw_from item)) \<and> \<not> sticky (h (rw_from item))"
  shows "find_rewrite rules pathname h
         = (find (\<lambda>item. fst (RegExpBuiltinExec (h (rw_from item)) pathname) \<noteq> None) rules, h)"
  using assms
  by (induction rules) (auto simp: RegExp_prototype_test_stateless)

lemma scan_past_end: "scan m s (Suc (length s)) = None"
  by (subst scan.simps) simp

lemma scan_matcher_of_append:
  "scan (matcher_of r) (pre @ s) (length pre) = exec_from r (length pre) s"
proof (induction s arbitrary: pre)
  case Nil
  show ?case
    by (subst scan.simps) (simp add: match_at_def matcher_of_def scan_past_end split: list.splits)
next
  case (Cons c s)
  from Cons [of "pre @ [c]"]
  have "scan (matcher_of r) (pre @ c # s) (Suc (length pre)) = exec_from r (Suc (length pre)) s"
    by simp
  then show ?case
    by (subst scan.simps) (simp add: match_at_def matcher_of_def split: list.splits)
qed

lemma scan_matcher_of: "scan (matcher_of r) s 0 = exec_from r 0 s"
  using scan_matcher_of_append [of r "[]" s] by simp

lemma RegExpBuiltinExec_flagless:
  "RegExpBuiltinExec (RegExp_object r False False) s
   = (RegExp_exec r s, RegExp_object r False False)"
  by (simp add: RegExpBuiltinExec_stateless RegExp_object_def scan_matcher_of RegExp_exec_def)

text \<open>
  Rules whose patterns have neither \<open>g\<close> nor \<open>y\<close>. For a request that reaches the
  rules, they are tried in the order of their declaration against the request path, and
  the first rule whose pattern matches is the one used: the request goes on with the
  rule's evaluated target as its URL, and the patterns are left as they were. This
  holds in every state of the plugin, so also when the path is that of a registered
  page: the route table is not consulted then. When no rule matches, the route table
  decides.
\<close>

lemma middleware_first_matching_rewrite:
  assumes "html_request api req pathname"
    and "rules = before @ rule # after"
    and "\<forall>item \<in> set rules. \<not> global (h (rw_from item)) \<and> \<not> sticky (h (rw_from item))"
    and "\<forall>item \<in> set before. fst (RegExpBuiltinExec (h (rw_from item)) pathname) = None"
    and "fst (RegExpBuiltinExec (h (rw_from rule)) pathname) = Some mt"
  shows "middleware api rules st req h
         = (NextWithUrl (evaluateRewriteRule api (url_parse api (the (req_originalUrl req)))
                           (Exec mt) (rw_to rule)), h)"
proof -
  from assms(2,4,5)
  have "find (\<lambda>item. fst (RegExpBuiltinExec (h (rw_from item)) pathname) \<noteq> None) rules = Some rule"
    by (simp add: find_first)
  with find_rewrite_stateless [OF assms(3)]
  have f: "find_rewrite rules pathname h = (Some rule, h)" by simp
  from assms(2,3) have "\<not> global (h (rw_from rule))" "\<not> sticky (h (rw_from rule))" by auto
  then have m: "String_prototype_match pathname (h (rw_from rule)) = (Some (Exec mt), h (rw_from rule))"
    using assms(5) by (simp add: String_prototype_match_stateless)
  from assms(2) have ne: "rules \<noteq> []" by simp
  from assms(1) f m ne show ?thesis
    by (simp add: middleware_def html_request_def truthy_def Let_def)
qed

lemma middleware_no_matching_rewrite:
  assumes "html_request api req pathname"
    and "\<forall>item \<in> set rules. \<not> global (h (rw_from item)) \<and> \<not> sticky (h (rw_from item))"
    and "\<forall>item \<in> set rules. fst (RegExpBuiltinExec (h (rw_from item)) pathname) = None"
  shows "middleware api rules st req h = (resolve st pathname, h)"
proof -
  from assms(3)
  have "find (\<lambda>item. fst (RegExpBuiltinExec (h (rw_from item)) pathname) \<noteq> None) rules = None"
    by (simp add: find_None_iff)
  with find_rewrite_stateless [OF assms(2)]
  have f: "find_rewrite rules pathname h = (None, h)" by simp
  from assms(1) f show ?thesis
    by (simp add: middleware_def html_request_def truthy_def Let_def)
qed

lemma middleware_first_matching_rewrite_example:
  "html_request example_api about_request ''/about''
   \<and> fst (RegExpBuiltinExec (example_store 0) ''/about'') = None
   \<and> fst (RegExpBuiltinExec (example_store 1) ''/about'') \<noteq> None
   \<and> fst (RegExpBuiltinExec (example_store 2) ''/about'') \<noteq> None
   \<and> resolve (example_state about_pages) ''/about'' = Serve ''about.html''
   \<and> fst (middleware example_api example_rewrites (example_state about_pages) about_request
            example_store) = NextWithUrl ''/custom.html''"
  by code_simp

text \<open>
  C6. The claim: the rules are tried in the order of their declaration, the first rule
  whose pattern matches the request path is used, and a path that matches both a rule
  and a registered page goes to the rule's target. The code finds the rule with
  \<open>item.from.test(pathname)\<close> and then reads the match with
  \<open>pathname.match(rewrite.from)\<close>, on the same object, and uses the rule only when
  the second call gives a match. For a pattern with the sticky flag the first call
  leaves \<open>lastIndex\<close> at the end of its match, and the second call, which starts
  there, fails. With the single rule \<open>{from: /\/about/y, to: '/custom.html'}\<close>, the
  registered page \<open>about\<close> and the request \<open>GET /about\<close>: the rule's pattern matches
  the path, the second call gives \<open>null\<close>, and the request is served the virtual page
  \<open>about.html\<close> from the route table instead of going on to \<open>/custom.html\<close>. For
  rules with neither \<open>g\<close> nor \<open>y\<close> the first matching rule is used
  (\<open>middleware_first_matching_rewrite\<close>).
\<close>

theorem middleware_sticky_rewrite:
  "fst (RegExp_prototype_test (sticky_store 0) ''/about'')
   \<and> lastIndex (snd (RegExp_prototype_test (sticky_store 0) ''/about'')) = 6
   \<and> fst (String_prototype_match ''/about''
            (snd (RegExp_prototype_test (sticky_store 0) ''/about''))) = None
   \<and> fst (middleware example_api sticky_rewrites (example_state about_pages) about_request
            sticky_store) = Serve ''about.html''"
  by code_simp

theorem middleware_sticky_rewrite_witness:
  "fst (middleware example_api sticky_rewrites (example_state about_pages) about_request
          sticky_store) \<noteq> NextWithUrl ''/custom.html''"
  using middleware_sticky_rewrite by simp

end
